theory Spec2Isabelle
  imports Main "HOL-Library.Word"
begin

section \<open>Faults and the allocator\<close>

text \<open>
  Both programs are C: what the C standard leaves undefined is a \<open>fault\<close> of the model,
  so that an operation returns \<open>Inl\<close> of a fault where the C program has no defined
  result, and \<open>Inr\<close> of its result otherwise.
  \<^item> \<open>NullDeref\<close>: an access through a null pointer;
  \<^item> \<open>InvalidPtr\<close>: an access through a pointer to no object;
  \<^item> \<open>UseAfterFree\<close>: an access to a block that \<open>free\<close> has released;
  \<^item> \<open>OutOfBounds\<close>: an access beyond the end of a block;
  \<^item> \<open>Uninit\<close>: a read of a field that was never written;
  \<^item> \<open>Overlap\<close>: \<open>memcpy\<close> between overlapping regions;
  \<^item> \<open>InvalidFree\<close>: \<open>free\<close> of a pointer that \<open>malloc\<close> did not return.
\<close>

datatype fault = NullDeref | InvalidPtr | UseAfterFree | OutOfBounds | Uninit | Overlap | InvalidFree

text \<open>
  \<open>malloc\<close> may return a null pointer, and neither program checks for it. The answers of
  the allocator to the coming calls are part of the memory: a list of booleans, one per
  call, \<open>True\<close> for a block and \<open>False\<close> for a null pointer; once the list is used
  up, every call is granted.
\<close>

definition grant_next :: "bool list \<Rightarrow> bool" where
  "grant_next gs \<longleftrightarrow> gs = [] \<or> hd gs"

definition grant_all :: "bool list \<Rightarrow> bool" where
  "grant_all gs \<longleftrightarrow> list_all (\<lambda>g. g) gs"

section \<open>The linked list (src/ds/linked\_list.c and src/unnamed/part\_000)\<close>

text \<open>
  \<open>struct IntNode { struct IntNode* next; int value; }\<close> and
  \<open>struct IntList { IntNode* head; IntNode* tail; }\<close>. A node pointer is null or the
  address of a node; the nodes live in a heap, a list indexed by address, and a node
  that \<open>malloc\<close> has just returned has indeterminate fields (\<open>None\<close>). The list
  header is a local of \<open>main\<close> that \<open>push_node\<close> reaches through a pointer: the model
  passes it in and returns it updated. An \<open>int\<close> is a 32-bit word.
\<close>

datatype node_ptr = NULL | Node nat

record IntNode =
  next_ptr :: "node_ptr option"
  value_int :: "32 word option"

record IntList =
  head :: node_ptr
  tail :: node_ptr

record node_mem =
  nodes :: "IntNode list"
  node_grants :: "bool list"

text \<open>
  The process state that a node function can see and change: the heap, and what has
  been printed. A line \<open>Node value: %d\<close> is recorded as the integer it shows.
  \<open>typedef void (*NodeFn)(IntNode* node)\<close> (\<open>PrinterFn\<close> in part\_000).
\<close>

record world =
  heap :: node_mem
  stdout :: "int list"

type_synonym NodeFn = "node_ptr \<Rightarrow> world \<Rightarrow> fault + world"

text \<open>\<open>malloc(sizeof(IntNode))\<close>: a new node at the next free address, or null.\<close>

definition malloc_node :: "node_mem \<Rightarrow> node_ptr \<times> node_mem" where
  "malloc_node m =
     (let rest = tl (node_grants m) in
      if grant_next (node_grants m)
      then (Node (length (nodes m)),
            m\<lparr>nodes := nodes m @ [\<lparr>next_ptr = None, value_int = None\<rparr>], node_grants := rest\<rparr>)
      else (NULL, m\<lparr>node_grants := rest\<rparr>))"

text \<open>Reads and writes of \<open>p->next\<close> and \<open>p->value\<close>.\<close>

definition load_next :: "node_mem \<Rightarrow> node_ptr \<Rightarrow> fault + node_ptr" where
  "load_next m p =
     (case p of NULL \<Rightarrow> Inl NullDeref
      | Node a \<Rightarrow>
          if a < length (nodes m)
          then (case next_ptr (nodes m ! a) of None \<Rightarrow> Inl Uninit | Some q \<Rightarrow> Inr q)
          else Inl InvalidPtr)"

definition load_value :: "node_mem \<Rightarrow> node_ptr \<Rightarrow> fault + 32 word" where
  "load_value m p =
     (case p of NULL \<Rightarrow> Inl NullDeref
      | Node a \<Rightarrow>
          if a < length (nodes m)
          then (case value_int (nodes m ! a) of None \<Rightarrow> Inl Uninit | Some v \<Rightarrow> Inr v)
          else Inl InvalidPtr)"

definition store_next :: "node_mem \<Rightarrow> node_ptr \<Rightarrow> node_ptr \<Rightarrow> fault + node_mem" where
  "store_next m p q =
     (case p of NULL \<Rightarrow> Inl NullDeref
      | Node a \<Rightarrow>
          if a < length (nodes m)
          then Inr (m\<lparr>nodes := (nodes m)[a := (nodes m ! a)\<lparr>next_ptr := Some q\<rparr>]\<rparr>)
          else Inl InvalidPtr)"

definition store_value :: "node_mem \<Rightarrow> node_ptr \<Rightarrow> 32 word \<Rightarrow> fault + node_mem" where
  "store_value m p v =
     (case p of NULL \<Rightarrow> Inl NullDeref
      | Node a \<Rightarrow>
          if a < length (nodes m)
          then Inr (m\<lparr>nodes := (nodes m)[a := (nodes m ! a)\<lparr>value_int := Some v\<rparr>]\<rparr>)
          else Inl InvalidPtr)"

text \<open>
  \<open>push_node\<close> (linked\_list.c, lines 119 to 133; part\_000, lines 17 to 30):
  \<^verbatim>\<open>
    IntNode* node = malloc(sizeof(IntNode));
    node->value = node_val;
    node->next = NULL;
    if (list->head == NULL) { list->head = node; } else { list->tail->next = node; }
    list->tail = node;
  \<close>
\<close>

definition push_node :: "node_mem \<Rightarrow> IntList \<Rightarrow> 32 word \<Rightarrow> fault + (node_mem \<times> IntList)" where
  "push_node m list node_val =
     (case malloc_node m of (node, m0) \<Rightarrow>
       (case store_value m0 node node_val of Inl e \<Rightarrow> Inl e
        | Inr m1 \<Rightarrow>
           (case store_next m1 node NULL of Inl e \<Rightarrow> Inl e
            | Inr m2 \<Rightarrow>
                if head list = NULL
                then Inr (m2, list\<lparr>head := node, tail := node\<rparr>)
                else (case store_next m2 (tail list) node of Inl e \<Rightarrow> Inl e
                      | Inr m3 \<Rightarrow> Inr (m3, list\<lparr>tail := node\<rparr>)))))"

text \<open>\<open>print_node\<close>: \<open>printf("Node value: %d\n", node->value)\<close>.\<close>

definition print_node :: NodeFn where
  "print_node node w =
     (case load_value (heap w) node of Inl e \<Rightarrow> Inl e
      | Inr v \<Rightarrow> Inr (w\<lparr>stdout := stdout w @ [sint v]\<rparr>))"

text \<open>
  \<open>walk_and_print_list\<close> (linked\_list.c, lines 151 to 159; part\_000, lines 36 to 41):
  \<^verbatim>\<open>
    nfn(node);
    if (node->next != NULL) { walk_and_print_list(node->next, nfn); }
  \<close>
  The recursion follows the \<open>next\<close> links of the heap and has no bound of its own: on a
  cyclic chain it does not return, which is the value \<open>None\<close>.
\<close>

partial_function (option) walk_and_print_list ::
  "node_ptr \<Rightarrow> NodeFn \<Rightarrow> world \<Rightarrow> (fault + world) option" where
  "walk_and_print_list node nfn w =
     (case nfn node w of Inl e \<Rightarrow> Some (Inl e)
      | Inr w1 \<Rightarrow>
          (case load_next (heap w1) node of Inl e \<Rightarrow> Some (Inl e)
           | Inr nx \<Rightarrow>
               if nx \<noteq> NULL then walk_and_print_list nx nfn w1 else Some (Inr w1)))"

text \<open>\<open>some_fn\<close> (linked\_list.c, lines 167 to 173).\<close>

definition some_fn :: "node_mem \<Rightarrow> IntList \<Rightarrow> fault + (node_mem \<times> IntList)" where
  "some_fn m list = (let result = 50 in push_node m list result)"

text \<open>A sequence of calls of \<open>push_node\<close>, as \<open>main\<close> makes them; a fault ends it.\<close>

fun push_nodes :: "node_mem \<Rightarrow> IntList \<Rightarrow> 32 word list \<Rightarrow> fault + (node_mem \<times> IntList)" where
  "push_nodes m list [] = Inr (m, list)"
| "push_nodes m list (v # vs) =
     (case push_node m list v of Inl e \<Rightarrow> Inl e
      | Inr (m1, list1) \<Rightarrow> push_nodes m1 list1 vs)"

text \<open>
  \<open>main\<close> of part\_000 (lines 43 to 52): the list \<open>{NULL, NULL}\<close>, four calls of
  \<open>push_node\<close>, then the walk from the head with \<open>print_node\<close>.
\<close>

definition main_list :: "node_mem \<Rightarrow> (fault + world) option" where
  "main_list m =
     (let linked_list = \<lparr>head = NULL, tail = NULL\<rparr> in
      case push_nodes m linked_list [5, 10, 20, 40] of Inl e \<Rightarrow> Some (Inl e)
      | Inr (m1, linked_list1) \<Rightarrow>
          walk_and_print_list (head linked_list1) print_node \<lparr>heap = m1, stdout = []\<rparr>)"

subsection \<open>Chains of nodes and the invariants of a list\<close>

text \<open>\<open>hop m k p\<close> follows \<open>k\<close> links \<open>next\<close> from \<open>p\<close>.\<close>

fun hop :: "node_mem \<Rightarrow> nat \<Rightarrow> node_ptr \<Rightarrow> fault + node_ptr" where
  "hop m 0 p = Inr p"
| "hop m (Suc k) p = (case load_next m p of Inl e \<Rightarrow> Inl e | Inr q \<Rightarrow> hop m k q)"

text \<open>
  \<open>chain m p ps\<close>: the nodes met from \<open>p\<close> along the links \<open>next\<close>, up to the null
  link, are those at the addresses \<open>ps\<close>, in this order.
\<close>

primrec chain :: "node_mem \<Rightarrow> node_ptr \<Rightarrow> nat list \<Rightarrow> bool" where
  "chain m p [] = (p = NULL)"
| "chain m p (a # as) =
     (p = Node a \<and> (case load_next m p of Inl e \<Rightarrow> False | Inr q \<Rightarrow> chain m q as))"

text \<open>
  The invariants of a list whose nodes are \<open>ps\<close>: without a head there is no tail and
  no node; the link of the tail is null; the chain from the head is \<open>ps\<close>, without a
  repetition; and the tail is the node reached from the head in \<open>length ps - 1\<close> hops.
\<close>

definition list_inv :: "node_mem \<Rightarrow> IntList \<Rightarrow> nat list \<Rightarrow> bool" where
  "list_inv m list ps \<longleftrightarrow>
     (head list = NULL \<longrightarrow> tail list = NULL \<and> ps = []) \<and>
     (tail list \<noteq> NULL \<longrightarrow> load_next m (tail list) = Inr NULL) \<and>
     chain m (head list) ps \<and> distinct ps \<and>
     (ps \<noteq> [] \<longrightarrow> hop m (length ps - 1) (head list) = Inr (tail list))"

text \<open>The node function applied to each pointer of a list in turn, once; a fault ends it.\<close>

fun visit_all :: "NodeFn \<Rightarrow> node_ptr list \<Rightarrow> world \<Rightarrow> fault + world" where
  "visit_all nfn [] w = Inr w"
| "visit_all nfn (p # ps) w =
     (case nfn p w of Inl e \<Rightarrow> Inl e | Inr w1 \<Rightarrow> visit_all nfn ps w1)"

definition node_vals :: "node_mem \<Rightarrow> nat list \<Rightarrow> (fault + 32 word) list" where
  "node_vals m ps = map (\<lambda>a. load_value m (Node a)) ps"

section \<open>The dynamic array (src/ds/dyn\_array.c)\<close>

text \<open>
  \<open>size_t\<close> is a 64-bit word: \<open>+\<close>, \<open>-\<close> and \<open>*\<close> wrap around, as unsigned
  arithmetic does in C. A byte of storage is a \<open>cell\<close>: an 8-bit word, or \<open>None\<close>
  while its content is indeterminate (\<open>malloc\<close> does not initialise what it returns).
\<close>

type_synonym size_t = "64 word"
type_synonym cell = "8 word option"

text \<open>
  Memory is a list of blocks. A block is the storage of one \<open>malloc\<close> or of one local
  variable of a caller: \<open>Some\<close> of its cells, or \<open>None\<close> once \<open>free\<close> has released
  it. A pointer is null or a block and a byte offset into it, so that \<open>(char*)p + n\<close>
  adds to the offset.
\<close>

datatype byte_ptr = Null | Ptr nat nat

text \<open>
  \<open>struct DynArray { void* items; size_t count; size_t cap; size_t size; }\<close>. The
  operations reach the structure through a pointer: the model passes it in and returns
  it updated.
\<close>

record DynArray =
  items :: byte_ptr
  count :: size_t
  cap :: size_t
  size_bytes :: size_t

record mem =
  blocks :: "cell list option list"
  grants :: "bool list"

text \<open>\<open>malloc(n)\<close>: a new block of \<open>n\<close> indeterminate bytes, or null.\<close>

definition malloc :: "mem \<Rightarrow> size_t \<Rightarrow> byte_ptr \<times> mem" where
  "malloc m n =
     (let rest = tl (grants m) in
      if grant_next (grants m)
      then (Ptr (length (blocks m)) 0,
            m\<lparr>blocks := blocks m @ [Some (replicate (unat n) None)], grants := rest\<rparr>)
      else (Null, m\<lparr>grants := rest\<rparr>))"

text \<open>\<open>free(p)\<close>: nothing for a null pointer, else \<open>p\<close> must be the start of a live block.\<close>

definition free :: "mem \<Rightarrow> byte_ptr \<Rightarrow> fault + mem" where
  "free m p =
     (case p of Null \<Rightarrow> Inr m
      | Ptr b off \<Rightarrow>
          if b < length (blocks m) \<and> off = 0 \<and> blocks m ! b \<noteq> None
          then Inr (m\<lparr>blocks := (blocks m)[b := None]\<rparr>)
          else Inl InvalidFree)"

text \<open>Reading and writing \<open>n\<close> bytes at a pointer; both stay inside one live block.\<close>

definition load :: "mem \<Rightarrow> byte_ptr \<Rightarrow> nat \<Rightarrow> fault + cell list" where
  "load m p n =
     (case p of Null \<Rightarrow> Inl NullDeref
      | Ptr b off \<Rightarrow>
          if b < length (blocks m)
          then (case blocks m ! b of None \<Rightarrow> Inl UseAfterFree
                | Some cs \<Rightarrow>
                    if off + n \<le> length cs then Inr (take n (drop off cs))
                    else Inl OutOfBounds)
          else Inl InvalidPtr)"

definition store :: "mem \<Rightarrow> byte_ptr \<Rightarrow> cell list \<Rightarrow> fault + mem" where
  "store m p vs =
     (case p of Null \<Rightarrow> Inl NullDeref
      | Ptr b off \<Rightarrow>
          if b < length (blocks m)
          then (case blocks m ! b of None \<Rightarrow> Inl UseAfterFree
                | Some cs \<Rightarrow>
                    if off + length vs \<le> length cs
                    then Inr (m\<lparr>blocks := (blocks m)
                                [b := Some (take off cs @ vs @ drop (off + length vs) cs)]\<rparr>)
                    else Inl OutOfBounds)
          else Inl InvalidPtr)"

definition overlap :: "byte_ptr \<Rightarrow> byte_ptr \<Rightarrow> nat \<Rightarrow> bool" where
  "overlap p q n =
     (case p of Null \<Rightarrow> False
      | Ptr b1 o1 \<Rightarrow>
          (case q of Null \<Rightarrow> False
           | Ptr b2 o2 \<Rightarrow> b1 = b2 \<and> o1 < o2 + n \<and> o2 < o1 + n))"

text \<open>\<open>memcpy(dest, src, n)\<close>: the regions must be valid and must not overlap.\<close>

definition memcpy :: "mem \<Rightarrow> byte_ptr \<Rightarrow> byte_ptr \<Rightarrow> size_t \<Rightarrow> fault + mem" where
  "memcpy m dest src n =
     (case load m src (unat n) of Inl e \<Rightarrow> Inl e
      | Inr cs \<Rightarrow> if overlap dest src (unat n) then Inl Overlap else store m dest cs)"

definition ptr_add :: "byte_ptr \<Rightarrow> size_t \<Rightarrow> byte_ptr" where
  "ptr_add p n = (case p of Null \<Rightarrow> Null | Ptr b off \<Rightarrow> Ptr b (off + unat n))"

text \<open>
  \<open>sizeof(DynArray)\<close>, a pointer and three \<open>size_t\<close> of 8 bytes each, and
  \<open>sizeof(User)\<close> for \<open>struct User { char name[50]; short id; }\<close>.
\<close>

definition sizeof_DynArray :: size_t where
  "sizeof_DynArray = 32"


text \<open>
  \<open>new_dyn_array\<close> (lines 53 to 66):
  \<^verbatim>\<open>
    DynArray* array = malloc(sizeof(DynArray));
    array->count = 0;
    array->cap = 2;
    array->size = size;
    array->items = malloc(array->size * array->cap);
    return array;
  \<close>
  Neither result of \<open>malloc\<close> is checked: when the first is null the assignment to
  \<open>array->count\<close> is a fault, when the second is null the array is returned with null
  \<open>items\<close>.
\<close>

definition new_dyn_array :: "mem \<Rightarrow> size_t \<Rightarrow> fault + (mem \<times> DynArray)" where
  "new_dyn_array m size_arg =
     (case malloc m sizeof_DynArray of (array, m1) \<Rightarrow>
        if array = Null then Inl NullDeref
        else (case malloc m1 (size_arg * 2) of (its, m2) \<Rightarrow>
                Inr (m2, \<lparr>items = its, count = 0, cap = 2, size_bytes = size_arg\<rparr>)))"

text \<open>
  The body of the \<open>if\<close> of \<open>push_dyn_array\<close> (lines 77 to 95):
  \<^verbatim>\<open>
    array->cap *= 2;
    size_t new_size = array->cap * array->size;
    void* new_items = malloc(new_size);
    memcpy(new_items, array->items, array->size * array->count);
    free(array->items);
    array->items = new_items;
  \<close>
\<close>

definition grow_dyn_array :: "mem \<Rightarrow> DynArray \<Rightarrow> fault + (mem \<times> DynArray)" where
  "grow_dyn_array m array =
     (let array1 = array\<lparr>cap := cap array * 2\<rparr>;
          new_size = cap array1 * size_bytes array1
      in case malloc m new_size of (new_items, m1) \<Rightarrow>
           (case memcpy m1 new_items (items array1) (size_bytes array1 * count array1) of
              Inl e \<Rightarrow> Inl e
            | Inr m2 \<Rightarrow>
                (case free m2 (items array1) of Inl e \<Rightarrow> Inl e
                 | Inr m3 \<Rightarrow> Inr (m3, array1\<lparr>items := new_items\<rparr>))))"

text \<open>
  \<open>push_dyn_array\<close> (lines 75 to 106): \<open>if (array->count >= array->cap)\<close> the
  storage grows, then
  \<^verbatim>\<open>
    void* dest = (char*)array->items + array->size * array->count;
    memcpy(dest, val, array->size);
    array->count++;
  \<close>
\<close>

definition push_dyn_array :: "mem \<Rightarrow> DynArray \<Rightarrow> byte_ptr \<Rightarrow> fault + (mem \<times> DynArray)" where
  "push_dyn_array m array val =
     (case (if count array \<ge> cap array then grow_dyn_array m array else Inr (m, array)) of
        Inl e \<Rightarrow> Inl e
      | Inr (m1, array1) \<Rightarrow>
          (let dest = ptr_add (items array1) (size_bytes array1 * count array1)
           in case memcpy m1 dest val (size_bytes array1) of Inl e \<Rightarrow> Inl e
              | Inr m2 \<Rightarrow> Inr (m2, array1\<lparr>count := count array1 + 1\<rparr>)))"

text \<open>
  \<open>pop_dyn_array\<close> (lines 122 to 135):
  \<^verbatim>\<open>
    if (array->count == 0) { return 0; }
    void* src = (char*)array->items + ((array->count - 1) * array->size);
    memcpy(popped, src, array->size);
    array->count--;
    return 1;
  \<close>
\<close>

definition pop_dyn_array ::
  "mem \<Rightarrow> DynArray \<Rightarrow> byte_ptr \<Rightarrow> fault + (32 word \<times> mem \<times> DynArray)" where
  "pop_dyn_array m array popped =
     (if count array = 0 then Inr (0, m, array)
      else (let src = ptr_add (items array) ((count array - 1) * size_bytes array)
            in case memcpy m popped src (size_bytes array) of Inl e \<Rightarrow> Inl e
               | Inr m1 \<Rightarrow> Inr (1, m1, array\<lparr>count := count array - 1\<rparr>)))"

text \<open>
  The source has no function that returns an element. An element is reached by the
  address expression of lines 99, 128 and 149,
  \<open>(char*)array->items + array->size * i\<close>, where \<open>size\<close> bytes are then read or
  written. \<open>element_at\<close> is this expression followed by the read; like the source, it
  compares \<open>i\<close> with nothing.
\<close>

definition element_at :: "mem \<Rightarrow> DynArray \<Rightarrow> size_t \<Rightarrow> fault + cell list" where
  "element_at m array i =
     load m (ptr_add (items array) (size_bytes array * i)) (unat (size_bytes array))"












subsection \<open>Callers, and what the proofs say about an array\<close>

text \<open>
  A caller passes the address of one of its locals, as \<open>main\<close> does with \<open>&user1\<close>:
  \<open>local_var m v\<close> is a local holding the bytes \<open>v\<close>, in a block of its own. A
  sequence of pushes passes a new local to each call of \<open>push_dyn_array\<close>; a fault
  ends it.
\<close>

definition local_var :: "mem \<Rightarrow> cell list \<Rightarrow> byte_ptr \<times> mem" where
  "local_var m v = (Ptr (length (blocks m)) 0, m\<lparr>blocks := blocks m @ [Some v]\<rparr>)"

fun push_values :: "mem \<Rightarrow> DynArray \<Rightarrow> cell list list \<Rightarrow> fault + (mem \<times> DynArray)" where
  "push_values m array [] = Inr (m, array)"
| "push_values m array (v # vs) =
     (case local_var m v of (val, m1) \<Rightarrow>
        (case push_dyn_array m1 array val of Inl e \<Rightarrow> Inl e
         | Inr (m2, array2) \<Rightarrow> push_values m2 array2 vs))"

text \<open>The creation of an array followed by a sequence of pushes.\<close>

definition create_and_push :: "mem \<Rightarrow> size_t \<Rightarrow> cell list list \<Rightarrow> fault + (mem \<times> DynArray)" where
  "create_and_push m n vs =
     (case new_dyn_array m n of Inl e \<Rightarrow> Inl e
      | Inr (m1, array) \<Rightarrow> push_values m1 array vs)"

text \<open>
  \<open>stored m array\<close>: the bytes of the elements in use, the \<open>size * count\<close> bytes
  at \<open>items\<close> that line 88 copies. \<open>block_of p\<close>: the block a pointer points into.
\<close>

definition stored :: "mem \<Rightarrow> DynArray \<Rightarrow> fault + cell list" where
  "stored m array = load m (items array) (unat (size_bytes array * count array))"

definition block_of :: "byte_ptr \<Rightarrow> nat option" where
  "block_of p = (case p of Null \<Rightarrow> None | Ptr b off \<Rightarrow> Some b)"



text \<open>
  \<open>sizes_fit n k\<close>: the storage that \<open>k\<close> pushes of elements of \<open>n\<close> bytes reach,
  at most \<open>2 * k\<close> elements and never less than 2, has a size in bytes, and a
  capacity, below \<open>2 ^ 64\<close>, so that no product of the source wraps around.
\<close>

definition sizes_fit :: "size_t \<Rightarrow> nat \<Rightarrow> bool" where
  "sizes_fit n k \<longleftrightarrow> 2 * max 1 k * max 1 (unat n) < 2 ^ 64"

text \<open>
  The invariants of the data model, in the words of the specification: the length is
  at most the capacity, and the storage is not null when the capacity is positive.
\<close>

definition dyn_inv :: "DynArray \<Rightarrow> bool" where
  "dyn_inv array \<longleftrightarrow> count array \<le> cap array \<and> (0 < cap array \<longrightarrow> items array \<noteq> Null)"

text \<open>
  \<open>array_ok m array\<close>: the array is as \<open>new_dyn_array\<close> and \<open>push_dyn_array\<close>
  leave it. \<open>items\<close> is the start of a live block of \<open>cap * size\<close> bytes, a product
  that does not wrap around; the capacity is positive and the count at most the
  capacity.
\<close>

definition array_ok :: "mem \<Rightarrow> DynArray \<Rightarrow> bool" where
  "array_ok m array \<longleftrightarrow>
     (case items array of Null \<Rightarrow> False
      | Ptr b off \<Rightarrow>
          off = 0 \<and> b < length (blocks m) \<and>
          (case blocks m ! b of None \<Rightarrow> False
           | Some cs \<Rightarrow> length cs = unat (cap array) * unat (size_bytes array))) \<and>
     unat (cap array) * unat (size_bytes array) < 2 ^ 64 \<and>
     0 < cap array \<and> count array \<le> cap array"

section \<open>Properties of the linked list and of the dynamic array\<close>

lemma grant_all_next: "grant_all gs \<Longrightarrow> grant_next gs"
  by (cases gs) (simp_all add: grant_all_def grant_next_def)

lemma grant_all_tl: "grant_all gs \<Longrightarrow> grant_all (tl gs)"
  by (cases gs) (simp_all add: grant_all_def)

lemma malloc_node_granted:
  "grant_next (node_grants m) \<Longrightarrow>
   malloc_node m = (Node (length (nodes m)),
     m\<lparr>nodes := nodes m @ [\<lparr>next_ptr = None, value_int = None\<rparr>], node_grants := tl (node_grants m)\<rparr>)"
  by (simp add: malloc_node_def)

lemma malloc_node_refused:
  "\<not> grant_next (node_grants m) \<Longrightarrow> malloc_node m = (NULL, m\<lparr>node_grants := tl (node_grants m)\<rparr>)"
  by (simp add: malloc_node_def)

lemma push_node_refused:
  "\<not> grant_next (node_grants m) \<Longrightarrow> push_node m list v = Inl NullDeref"
  by (simp add: push_node_def malloc_node_refused store_value_def)

lemma push_node_first:
  assumes "grant_next (node_grants m)" "head list = NULL"
  shows "push_node m list v =
     Inr (m\<lparr>nodes := nodes m @ [\<lparr>next_ptr = Some NULL, value_int = Some v\<rparr>],
            node_grants := tl (node_grants m)\<rparr>,
          list\<lparr>head := Node (length (nodes m)), tail := Node (length (nodes m))\<rparr>)"
  using assms
  by (simp add: push_node_def malloc_node_granted store_value_def store_next_def)

lemma push_node_more:
  assumes "grant_next (node_grants m)" "head list \<noteq> NULL" "tail list = Node t" "t < length (nodes m)"
  shows "push_node m list v =
     Inr (m\<lparr>nodes := (nodes m)[t := (nodes m ! t)\<lparr>next_ptr := Some (Node (length (nodes m)))\<rparr>]
                       @ [\<lparr>next_ptr = Some NULL, value_int = Some v\<rparr>],
            node_grants := tl (node_grants m)\<rparr>,
          list\<lparr>tail := Node (length (nodes m))\<rparr>)"
  using assms
  by (simp add: push_node_def malloc_node_granted store_value_def store_next_def
      nth_append list_update_append)

lemma chain_Cons_iff:
  "chain m p (a # as) \<longleftrightarrow>
   p = Node a \<and> a < length (nodes m) \<and>
   (\<exists>q. next_ptr (nodes m ! a) = Some q \<and> chain m q as)"
  by (auto simp: load_next_def split: sum.splits option.splits if_splits)

lemma chain_bound: "chain m p ps \<Longrightarrow> a \<in> set ps \<Longrightarrow> a < length (nodes m)"
  by (induction ps arbitrary: p) (auto simp: chain_Cons_iff simp del: chain.simps)

lemma chain_snoc:
  assumes "chain m p ps" "ps \<noteq> []" "distinct ps" "n \<notin> set ps"
      and "\<And>a. a \<in> set ps \<Longrightarrow> a \<noteq> last ps \<Longrightarrow>
             a < length (nodes m') \<and> next_ptr (nodes m' ! a) = next_ptr (nodes m ! a)"
      and "last ps < length (nodes m')" "next_ptr (nodes m' ! last ps) = Some (Node n)"
      and "n < length (nodes m')" "next_ptr (nodes m' ! n) = Some NULL"
  shows "chain m' p (ps @ [n])"
  using assms
proof (induction ps arbitrary: p)
  case Nil
  then show ?case by simp
next
  case (Cons a as)
  from Cons.prems(1) obtain q where q: "p = Node a" "a < length (nodes m)"
    "next_ptr (nodes m ! a) = Some q" "chain m q as"
    by (auto simp: chain_Cons_iff simp del: chain.simps)
  show ?case
  proof (cases "as = []")
    case True
    then show ?thesis using Cons.prems q(1)
      by (simp add: chain_Cons_iff del: chain.simps(2))
  next
    case False
    have ne: "a \<noteq> last (a # as)" using False Cons.prems(3) by auto
    have "chain m' q (as @ [n])"
    proof (rule Cons.IH [OF q(4) False])
      show "distinct as" using Cons.prems(3) by simp
      show "n \<notin> set as" using Cons.prems(4) by simp
      show "\<And>b. b \<in> set as \<Longrightarrow> b \<noteq> last as \<Longrightarrow>
             b < length (nodes m') \<and> next_ptr (nodes m' ! b) = next_ptr (nodes m ! b)"
        using Cons.prems(5) False by simp
      show "last as < length (nodes m')" using Cons.prems(6) False by simp
      show "next_ptr (nodes m' ! last as) = Some (Node n)" using Cons.prems(7) False by simp
      show "n < length (nodes m')" by (rule Cons.prems(8))
      show "next_ptr (nodes m' ! n) = Some NULL" by (rule Cons.prems(9))
    qed
    moreover have "a < length (nodes m') \<and> next_ptr (nodes m' ! a) = Some q"
      using Cons.prems(5) [of a] ne q(3) by simp
    ultimately show ?thesis using q(1) by (simp add: chain_Cons_iff del: chain.simps)
  qed
qed

lemma chain_hop_end: "chain m p ps \<Longrightarrow> hop m (length ps) p = Inr NULL"
  by (induction ps arbitrary: p) (auto split: sum.splits)

lemma chain_hop_last:
  "chain m p ps \<Longrightarrow> ps \<noteq> [] \<Longrightarrow> hop m (length ps - 1) p = Inr (Node (last ps))"
proof (induction ps arbitrary: p)
  case Nil
  then show ?case by simp
next
  case (Cons a as)
  show ?case
  proof (cases as)
    case Nil
    then show ?thesis using Cons.prems by simp
  next
    case (Cons b bs)
    then show ?thesis using Cons.prems Cons.IH
      by (auto split: sum.splits)
  qed
qed

lemma chain_last_next:
  "chain m p ps \<Longrightarrow> ps \<noteq> [] \<Longrightarrow> load_next m (Node (last ps)) = Inr NULL"
proof (induction ps arbitrary: p)
  case Nil
  then show ?case by simp
next
  case (Cons a as)
  show ?case
  proof (cases as)
    case Nil
    then show ?thesis using Cons.prems by (auto split: sum.splits)
  next
    case (Cons b bs)
    then show ?thesis using Cons.prems Cons.IH
      by (auto split: sum.splits)
  qed
qed

lemma chain_NULL: "chain m NULL ps \<longleftrightarrow> ps = []"
  by (cases ps) auto

lemma list_invI:
  assumes "chain m (head list) ps" "distinct ps" "ps \<noteq> []" "tail list = Node (last ps)"
  shows "list_inv m list ps"
proof -
  have "head list \<noteq> NULL" using assms(1,3) by (auto simp: chain_NULL)
  moreover have "load_next m (tail list) = Inr NULL"
    using chain_last_next [OF assms(1,3)] assms(4) by simp
  moreover have "hop m (length ps - 1) (head list) = Inr (tail list)"
    using chain_hop_last [OF assms(1,3)] assms(4) by simp
  ultimately show ?thesis using assms by (simp add: list_inv_def)
qed

lemma list_inv_tail:
  assumes "list_inv m list ps" "head list \<noteq> NULL"
  shows "ps \<noteq> [] \<and> tail list = Node (last ps) \<and> last ps < length (nodes m)"
proof -
  have c: "chain m (head list) ps" using assms(1) by (simp add: list_inv_def)
  have ne: "ps \<noteq> []" using c assms(2) by (cases ps) auto
  have "hop m (length ps - 1) (head list) = Inr (tail list)"
    using assms(1) ne by (simp add: list_inv_def)
  then have "tail list = Node (last ps)" using chain_hop_last [OF c ne] by simp
  moreover have "last ps < length (nodes m)" using chain_bound [OF c] ne by simp
  ultimately show ?thesis using ne by simp
qed

lemma push_node_inv:
  assumes inv: "list_inv m list ps" and g: "grant_next (node_grants m)"
  shows "\<exists>m' list'. push_node m list v = Inr (m', list') \<and>
           list_inv m' list' (ps @ [length (nodes m)]) \<and>
           tail list' = Node (length (nodes m)) \<and>
           head list' = (if head list = NULL then Node (length (nodes m)) else head list) \<and>
           node_vals m' (ps @ [length (nodes m)]) = node_vals m ps @ [Inr v] \<and>
           node_grants m' = tl (node_grants m) \<and>
           length (nodes m') = Suc (length (nodes m))"
proof (cases "head list = NULL")
  case True
  let ?n = "length (nodes m)"
  let ?m' = "m\<lparr>nodes := nodes m @ [\<lparr>next_ptr = Some NULL, value_int = Some v\<rparr>],
               node_grants := tl (node_grants m)\<rparr>"
  let ?l' = "list\<lparr>head := Node ?n, tail := Node ?n\<rparr>"
  have ps: "ps = []" using inv True by (simp add: list_inv_def)
  have p: "push_node m list v = Inr (?m', ?l')" by (rule push_node_first [OF g True])
  have "chain ?m' (head ?l') [?n]" by (simp add: load_next_def)
  then have "list_inv ?m' ?l' [?n]" by (rule list_invI) simp_all
  moreover have "node_vals ?m' [?n] = [Inr v]" by (simp add: node_vals_def load_value_def)
  ultimately show ?thesis using p ps True by (simp add: node_vals_def)
next
  case False
  let ?n = "length (nodes m)"
  let ?t = "last ps"
  let ?m' = "m\<lparr>nodes := (nodes m)[?t := (nodes m ! ?t)\<lparr>next_ptr := Some (Node ?n)\<rparr>]
                       @ [\<lparr>next_ptr = Some NULL, value_int = Some v\<rparr>],
               node_grants := tl (node_grants m)\<rparr>"
  let ?l' = "list\<lparr>tail := Node ?n\<rparr>"
  from list_inv_tail [OF inv False]
  have ne: "ps \<noteq> []" and t: "tail list = Node ?t" and tb: "?t < ?n" by simp_all
  have c: "chain m (head list) ps" and d: "distinct ps" using inv by (simp_all add: list_inv_def)
  have bound: "\<And>a. a \<in> set ps \<Longrightarrow> a < ?n" using chain_bound [OF c] .
  have nin: "?n \<notin> set ps" using bound by blast
  have p: "push_node m list v = Inr (?m', ?l')" by (rule push_node_more [OF g False t tb])
  have c': "chain ?m' (head list) (ps @ [?n])"
  proof (rule chain_snoc [OF c ne d nin])
    show "\<And>a. a \<in> set ps \<Longrightarrow> a \<noteq> last ps \<Longrightarrow>
             a < length (nodes ?m') \<and> next_ptr (nodes ?m' ! a) = next_ptr (nodes m ! a)"
      using bound by (simp add: nth_append less_SucI)
    show "last ps < length (nodes ?m')" using tb by simp
    show "next_ptr (nodes ?m' ! last ps) = Some (Node ?n)" using tb by (simp add: nth_append)
    show "?n < length (nodes ?m')" by simp
    show "next_ptr (nodes ?m' ! ?n) = Some NULL" by (simp add: nth_append)
  qed
  have "list_inv ?m' ?l' (ps @ [?n])"
    by (rule list_invI) (use c' d nin in simp_all)
  moreover have "node_vals ?m' (ps @ [?n]) = node_vals m ps @ [Inr v]"
  proof -
    have "load_value ?m' (Node a) = load_value m (Node a)" if "a \<in> set ps" for a
    proof -
      have "a < ?n" using bound that .
      then show ?thesis using tb
        by (cases "a = last ps") (simp_all add: load_value_def nth_append)
    qed
    then have "node_vals ?m' ps = node_vals m ps" by (simp add: node_vals_def)
    moreover have "load_value ?m' (Node ?n) = Inr v" by (simp add: load_value_def nth_append)
    ultimately show ?thesis by (simp add: node_vals_def)
  qed
  ultimately show ?thesis using p False by simp
qed

lemma push_nodes_inv:
  assumes "list_inv m list ps" "grant_all (node_grants m)"
  shows "\<exists>m' list'. push_nodes m list vs = Inr (m', list') \<and>
           list_inv m' list' (ps @ [length (nodes m) ..< length (nodes m) + length vs]) \<and>
           node_vals m' (ps @ [length (nodes m) ..< length (nodes m) + length vs])
             = node_vals m ps @ map Inr vs \<and>
           grant_all (node_grants m') \<and>
           length (nodes m') = length (nodes m) + length vs"
  using assms
proof (induction vs arbitrary: m list ps)
  case Nil
  then show ?case by simp
next
  case (Cons v vs)
  let ?n = "length (nodes m)"
  from push_node_inv [OF Cons.prems(1) grant_all_next [OF Cons.prems(2)], of v]
  obtain m1 list1 where s: "push_node m list v = Inr (m1, list1)"
    "list_inv m1 list1 (ps @ [?n])"
    "node_vals m1 (ps @ [?n]) = node_vals m ps @ [Inr v]"
    "node_grants m1 = tl (node_grants m)" "length (nodes m1) = Suc ?n"
    by blast
  have g1: "grant_all (node_grants m1)" using s(4) grant_all_tl [OF Cons.prems(2)] by simp
  from Cons.IH [OF s(2) g1]
  obtain m' list' where r: "push_nodes m1 list1 vs = Inr (m', list')"
    "list_inv m' list' ((ps @ [?n]) @ [length (nodes m1) ..< length (nodes m1) + length vs])"
    "node_vals m' ((ps @ [?n]) @ [length (nodes m1) ..< length (nodes m1) + length vs])
       = node_vals m1 (ps @ [?n]) @ map Inr vs"
    "grant_all (node_grants m')" "length (nodes m') = length (nodes m1) + length vs"
    by blast
  have e: "(ps @ [?n]) @ [length (nodes m1) ..< length (nodes m1) + length vs]
      = ps @ [?n ..< ?n + length (v # vs)]"
    using s(5) by (simp add: upt_conv_Cons del: upt_Suc)
  show ?case using s(1) r s(3,5) unfolding e by simp
qed

lemma walk_chain:
  assumes pres: "\<And>p w w'. nfn p w = Inr w' \<Longrightarrow> heap w' = heap w"
  shows "chain (heap w) (Node a) ps \<Longrightarrow>
         walk_and_print_list (Node a) nfn w = Some (visit_all nfn (map Node ps) w)"
proof (induction ps arbitrary: a w)
  case Nil
  then show ?case by simp
next
  case (Cons b bs)
  from Cons.prems obtain q where q: "b = a" "load_next (heap w) (Node a) = Inr q"
    "chain (heap w) q bs"
    by (auto split: sum.splits)
  show ?case
  proof (cases "nfn (Node a) w")
    case (Inl e)
    then show ?thesis using q(1)
      by (subst walk_and_print_list.simps) simp
  next
    case (Inr w1)
    have h: "heap w1 = heap w" using pres [OF Inr] .
    show ?thesis
    proof (cases q)
      case NULL
      then have "bs = []" using q(3) by (simp add: chain_NULL)
      then show ?thesis using Inr h q NULL
        by (subst walk_and_print_list.simps) simp
    next
      case (Node c)
      have "walk_and_print_list (Node c) nfn w1 = Some (visit_all nfn (map Node bs) w1)"
        using Cons.IH [of w1 c] q(3) h Node by simp
      then show ?thesis using Inr h q Node
        by (subst walk_and_print_list.simps) simp
    qed
  qed
qed

lemma walk_NULL: "\<exists>e. walk_and_print_list NULL nfn w = Some (Inl e)"
  by (subst walk_and_print_list.simps) (simp add: load_next_def split: sum.splits)

lemma print_node_heap: "print_node p w = Inr w' \<Longrightarrow> heap w' = heap w"
  by (auto simp: print_node_def split: sum.splits)

lemma visit_all_print:
  "node_vals (heap w) ps = map Inr vs \<Longrightarrow>
   visit_all print_node (map Node ps) w = Inr (w\<lparr>stdout := stdout w @ map sint vs\<rparr>)"
proof (induction ps arbitrary: w vs)
  case Nil
  then show ?case by (simp add: node_vals_def)
next
  case (Cons p ps)
  then obtain v vs' where vs: "vs = v # vs'" by (cases vs) (auto simp: node_vals_def)
  have v: "load_value (heap w) (Node p) = Inr v" and r: "node_vals (heap w) ps = map Inr vs'"
    using Cons.prems vs by (simp_all add: node_vals_def)
  let ?w1 = "w\<lparr>stdout := stdout w @ [sint v]\<rparr>"
  have "visit_all print_node (map Node ps) ?w1 = Inr (?w1\<lparr>stdout := stdout ?w1 @ map sint vs'\<rparr>)"
    by (rule Cons.IH) (use r in simp)
  moreover have "print_node (Node p) w = Inr ?w1" using v by (simp add: print_node_def)
  ultimately show ?case using vs by simp
qed

lemma chain_unique: "chain m p xs \<Longrightarrow> chain m p ys \<Longrightarrow> xs = ys"
proof (induction xs arbitrary: p ys)
  case Nil
  then show ?case by (simp add: chain_NULL)
next
  case (Cons a as)
  then obtain bs where ys: "ys = a # bs" by (cases ys) auto
  then show ?case using Cons by (auto split: sum.splits)
qed

lemma chain_suffix: "chain m p (xs @ a # ys) \<Longrightarrow> chain m (Node a) (a # ys)"
proof (induction xs arbitrary: p)
  case Nil
  then show ?case by auto
next
  case (Cons x xs)
  then show ?case by (auto split: sum.splits)
qed

lemma chain_distinct: "chain m p ps \<Longrightarrow> distinct ps"
proof (induction ps arbitrary: p)
  case Nil
  then show ?case by simp
next
  case (Cons a as)
  from Cons.prems obtain q where q: "p = Node a" "chain m q as"
    by (auto simp: chain_Cons_iff simp del: chain.simps(2))
  have "distinct as" using Cons.IH [OF q(2)] .
  moreover have "a \<notin> set as"
  proof
    assume "a \<in> set as"
    then obtain xs ys where as: "as = xs @ a # ys" by (auto simp: in_set_conv_decomp)
    from Cons.prems have "chain m p ((a # xs) @ a # ys)" unfolding as by auto
    then have "chain m (Node a) (a # ys)" by (rule chain_suffix)
    then have "a # as = a # ys" using Cons.prems q(1) chain_unique by blast
    then show False using as by simp
  qed
  ultimately show ?case by simp
qed

lemma hop_chain_nth:
  "chain m p ps \<Longrightarrow> k < length ps \<Longrightarrow> hop m k p = Inr (Node (ps ! k))"
proof (induction ps arbitrary: p k)
  case Nil
  then show ?case by simp
next
  case (Cons a as)
  show ?case
  proof (cases k)
    case 0
    then show ?thesis using Cons.prems by simp
  next
    case (Suc j)
    then show ?thesis using Cons.prems Cons.IH [of _ j] by (auto split: sum.splits)
  qed
qed

lemma hop_NULL: "hop m k NULL = Inr (Node a) \<Longrightarrow> False"
  by (cases k) (simp_all add: load_next_def)

lemma hop_chain_mem:
  "chain m p ps \<Longrightarrow> hop m k p = Inr (Node a) \<Longrightarrow> a \<in> set ps"
proof (induction ps arbitrary: p k)
  case Nil
  then show ?case using hop_NULL by auto
next
  case (Cons b bs)
  show ?case
  proof (cases k)
    case 0
    then show ?thesis using Cons.prems by simp
  next
    case (Suc j)
    then show ?thesis using Cons.prems Cons.IH [of _ j] by (auto split: sum.splits)
  qed
qed

lemma chain_reachable:
  assumes "chain m p ps"
  shows "a \<in> set ps \<longleftrightarrow> (\<exists>k. hop m k p = Inr (Node a))"
proof
  assume "a \<in> set ps"
  then obtain k where "k < length ps" "ps ! k = a" by (auto simp: in_set_conv_nth)
  then show "\<exists>k. hop m k p = Inr (Node a)" using hop_chain_nth [OF assms] by blast
next
  assume "\<exists>k. hop m k p = Inr (Node a)"
  then show "a \<in> set ps" using hop_chain_mem [OF assms] by blast
qed

lemma list_inv_empty: "list_inv m \<lparr>head = NULL, tail = NULL\<rparr> []"
  by (simp add: list_inv_def)

text \<open>
  C5. \<open>push_node\<close> allocates one new node, whose link \<open>next\<close> is null and whose
  value is the given integer. When the list has no head the new node becomes the head;
  otherwise the link of the current tail is set to the new node. In both cases the new
  node becomes the tail. No other node changes, and no value of an older node changes.
  The allocation is taken to succeed, and the tail of a list that has a head to point to
  a node: otherwise the call is a fault (\<open>push_node_refused\<close>).
\<close>

theorem push_node_links:
  assumes "grant_next (node_grants m)"
      and "head list \<noteq> NULL \<longrightarrow> (\<exists>t. tail list = Node t \<and> t < length (nodes m))"
  shows "\<exists>m' node.
           push_node m list v =
             Inr (m', list\<lparr>head := (if head list = NULL then node else head list), tail := node\<rparr>) \<and>
           node = Node (length (nodes m)) \<and>
           length (nodes m') = Suc (length (nodes m)) \<and>
           load_next m' node = Inr NULL \<and>
           load_value m' node = Inr v \<and>
           (head list \<noteq> NULL \<longrightarrow> load_next m' (tail list) = Inr node) \<and>
           (\<forall>a<length (nodes m).
               value_int (nodes m' ! a) = value_int (nodes m ! a) \<and>
               (head list = NULL \<or> tail list \<noteq> Node a \<longrightarrow> nodes m' ! a = nodes m ! a))"
proof (cases "head list = NULL")
  case True
  show ?thesis
    using push_node_first [OF assms(1) True, of v] True
    by (simp add: load_next_def load_value_def nth_append)
next
  case False
  then obtain t where t: "tail list = Node t" "t < length (nodes m)" using assms(2) by blast
  show ?thesis
    using push_node_more [OF assms(1) False t, of v] False t
    by (auto simp: load_next_def load_value_def nth_append nth_list_update)
qed

text \<open>C5 on a list of one node holding 5, to which 10 is appended.\<close>

theorem push_node_links_witness:
  "grant_next (node_grants \<lparr>nodes = [\<lparr>next_ptr = Some NULL, value_int = Some 5\<rparr>], node_grants = [True]\<rparr>) \<and>
   push_node \<lparr>nodes = [\<lparr>next_ptr = Some NULL, value_int = Some 5\<rparr>], node_grants = [True]\<rparr>
       \<lparr>head = Node 0, tail = Node 0\<rparr> 10 =
     Inr (\<lparr>nodes = [\<lparr>next_ptr = Some (Node 1), value_int = Some 5\<rparr>,
                    \<lparr>next_ptr = Some NULL, value_int = Some 10\<rparr>], node_grants = []\<rparr>,
          \<lparr>head = Node 0, tail = Node 1\<rparr>)"
  using push_node_links [of "\<lparr>nodes = [\<lparr>next_ptr = Some NULL, value_int = Some 5\<rparr>], node_grants = [True]\<rparr>"
      "\<lparr>head = Node 0, tail = Node 0\<rparr>" 10]
  by (simp add: grant_next_def push_node_def malloc_node_def store_value_def store_next_def)

text \<open>
  C9, amended. The empty list \<open>{NULL, NULL}\<close> satisfies the invariants of a list, and
  \<open>push_node\<close> preserves them: it returns when the allocation succeeds, and whenever
  it returns the list has one node more. Without a head there is no tail and no node;
  the link of the tail is null; the chain from the head has no repetition. In a list of
  \<open>n\<close> nodes the tail is reached from the head in exactly \<open>n - 1\<close> hops, and the null
  link in exactly \<open>n\<close> hops.
\<close>

theorem list_inv_preserved:
  "list_inv m \<lparr>head = NULL, tail = NULL\<rparr> [] \<and>
   (list_inv m list ps \<longrightarrow>
      (grant_next (node_grants m) \<longrightarrow> (\<exists>m' list'. push_node m list v = Inr (m', list'))) \<and>
      (\<forall>m' list'. push_node m list v = Inr (m', list') \<longrightarrow>
         list_inv m' list' (ps @ [length (nodes m)]) \<and>
         hop m' (length ps) (head list') = Inr (tail list') \<and>
         hop m' (Suc (length ps)) (head list') = Inr NULL))"
proof (intro conjI impI allI)
  show "list_inv m \<lparr>head = NULL, tail = NULL\<rparr> []" by (rule list_inv_empty)
next
  assume "list_inv m list ps" "grant_next (node_grants m)"
  from push_node_inv [OF this] show "\<exists>m' list'. push_node m list v = Inr (m', list')" by blast
next
  fix m' list'
  assume inv: "list_inv m list ps" and p: "push_node m list v = Inr (m', list')"
  have g: "grant_next (node_grants m)" using p push_node_refused [of m list v] by auto
  from push_node_inv [OF inv g, of v] p
  have i: "list_inv m' list' (ps @ [length (nodes m)])" by auto
  then show "list_inv m' list' (ps @ [length (nodes m)])" .
  from i show "hop m' (length ps) (head list') = Inr (tail list')" by (simp add: list_inv_def)
  from i have "chain m' (head list') (ps @ [length (nodes m)])" by (simp add: list_inv_def)
  from chain_hop_end [OF this] show "hop m' (Suc (length ps)) (head list') = Inr NULL" by simp
qed

text \<open>C9 on the first append to the empty list.\<close>

theorem list_inv_preserved_witness:
  "list_inv \<lparr>nodes = [], node_grants = []\<rparr> \<lparr>head = NULL, tail = NULL\<rparr> [] \<and>
   push_node \<lparr>nodes = [], node_grants = []\<rparr> \<lparr>head = NULL, tail = NULL\<rparr> 5 =
     Inr (\<lparr>nodes = [\<lparr>next_ptr = Some NULL, value_int = Some 5\<rparr>], node_grants = []\<rparr>,
          \<lparr>head = Node 0, tail = Node 0\<rparr>) \<and>
   list_inv \<lparr>nodes = [\<lparr>next_ptr = Some NULL, value_int = Some 5\<rparr>], node_grants = []\<rparr>
     \<lparr>head = Node 0, tail = Node 0\<rparr> [0] \<and>
   hop \<lparr>nodes = [\<lparr>next_ptr = Some NULL, value_int = Some 5\<rparr>], node_grants = []\<rparr> 0 (Node 0)
     = Inr (Node 0)"
proof -
  let ?m = "\<lparr>nodes = [], node_grants = []\<rparr>"
  let ?l = "\<lparr>head = NULL, tail = NULL\<rparr>"
  have p: "push_node ?m ?l 5 =
     Inr (\<lparr>nodes = [\<lparr>next_ptr = Some NULL, value_int = Some 5\<rparr>], node_grants = []\<rparr>,
          \<lparr>head = Node 0, tail = Node 0\<rparr>)"
    by (simp add: grant_next_def push_node_def malloc_node_def store_value_def store_next_def)
  show ?thesis
    using list_inv_preserved [of ?m ?l "[]" 5] p by simp
qed

text \<open>
  C9 as stated fails on a list of one node: its length is 1, and one hop from the head
  reaches the null link, not the tail.
\<close>

theorem list_hops_counterexample:
  "push_node \<lparr>nodes = [], node_grants = []\<rparr> \<lparr>head = NULL, tail = NULL\<rparr> 5 =
     Inr (\<lparr>nodes = [\<lparr>next_ptr = Some NULL, value_int = Some 5\<rparr>], node_grants = []\<rparr>,
          \<lparr>head = Node 0, tail = Node 0\<rparr>) \<and>
   hop \<lparr>nodes = [\<lparr>next_ptr = Some NULL, value_int = Some 5\<rparr>], node_grants = []\<rparr> 1 (Node 0)
     \<noteq> Inr (Node 0)"
  by (simp add: grant_next_def push_node_def malloc_node_def store_value_def store_next_def
      load_next_def)

text \<open>
  C10. From a start node that is not null, whose chain of links ends, the walk returns
  and has applied the node function to each node of the chain once, in the order of the
  chain, the start node first; the chain has no repetition and holds exactly the nodes
  reachable from the start node. The node function is taken not to change the heap, as
  \<open>print_node\<close> does not. From a null start node the walk is a fault, whatever the
  node function does: no path of the walk handles an empty list.
\<close>

theorem walk_and_print_list_domain:
  assumes "\<forall>p w0 w1. nfn p w0 = Inr w1 \<longrightarrow> heap w1 = heap w0"
      and "chain (heap w) start ps"
      and "start \<noteq> NULL"
  shows "walk_and_print_list start nfn w = Some (visit_all nfn (map Node ps) w) \<and>
         ps \<noteq> [] \<and> start = Node (hd ps) \<and> distinct ps \<and>
         (\<forall>a. a \<in> set ps \<longleftrightarrow> (\<exists>k. hop (heap w) k start = Inr (Node a))) \<and>
         (\<exists>e. walk_and_print_list NULL nfn w = Some (Inl e))"
proof -
  from assms(3) obtain a where a: "start = Node a" by (cases start) auto
  have pres: "\<And>p w0 w1. nfn p w0 = Inr w1 \<Longrightarrow> heap w1 = heap w0" using assms(1) by blast
  have "walk_and_print_list start nfn w = Some (visit_all nfn (map Node ps) w)"
    using walk_chain [of nfn w a ps] pres assms(2) a by blast
  moreover have "ps \<noteq> [] \<and> start = Node (hd ps)" using assms(2) a by (cases ps) auto
  moreover have "distinct ps" using chain_distinct [OF assms(2)] .
  moreover have "\<forall>a. a \<in> set ps \<longleftrightarrow> (\<exists>k. hop (heap w) k start = Inr (Node a))"
    using chain_reachable [OF assms(2)] by blast
  moreover have "\<exists>e. walk_and_print_list NULL nfn w = Some (Inl e)" by (rule walk_NULL)
  ultimately show ?thesis by blast
qed

text \<open>C10 on a chain of two nodes, and on the null pointer, with \<open>print_node\<close>.\<close>

theorem walk_and_print_list_domain_witness:
  "chain \<lparr>nodes = [\<lparr>next_ptr = Some (Node 1), value_int = Some 5\<rparr>,
                   \<lparr>next_ptr = Some NULL, value_int = Some 10\<rparr>], node_grants = []\<rparr> (Node 0) [0, 1] \<and>
   walk_and_print_list (Node 0) print_node
     \<lparr>heap = \<lparr>nodes = [\<lparr>next_ptr = Some (Node 1), value_int = Some 5\<rparr>,
                       \<lparr>next_ptr = Some NULL, value_int = Some 10\<rparr>], node_grants = []\<rparr>,
      stdout = []\<rparr> =
     Some (Inr \<lparr>heap = \<lparr>nodes = [\<lparr>next_ptr = Some (Node 1), value_int = Some 5\<rparr>,
                       \<lparr>next_ptr = Some NULL, value_int = Some 10\<rparr>], node_grants = []\<rparr>,
      stdout = [5, 10]\<rparr>) \<and>
   walk_and_print_list NULL print_node
     \<lparr>heap = \<lparr>nodes = [\<lparr>next_ptr = Some (Node 1), value_int = Some 5\<rparr>,
                       \<lparr>next_ptr = Some NULL, value_int = Some 10\<rparr>], node_grants = []\<rparr>,
      stdout = []\<rparr> = Some (Inl NullDeref)"
proof -
  let ?m = "\<lparr>nodes = [\<lparr>next_ptr = Some (Node 1), value_int = Some 5\<rparr>,
                   \<lparr>next_ptr = Some NULL, value_int = Some 10\<rparr>], node_grants = []\<rparr>"
  let ?w = "\<lparr>heap = ?m, stdout = []\<rparr>"
  have h: "\<forall>p w0 w1. print_node p w0 = Inr w1 \<longrightarrow> heap w1 = heap w0"
    using print_node_heap by blast
  have c: "chain (heap ?w) (Node 0) [0, 1]" by (simp add: load_next_def)
  have c': "chain ?m (Node 0) [0, 1]" by (simp add: load_next_def)
  have n: "walk_and_print_list NULL print_node ?w = Some (Inl NullDeref)"
    by (subst walk_and_print_list.simps) (simp add: print_node_def load_value_def)
  have v: "visit_all print_node (map Node [0, 1]) ?w = Inr \<lparr>heap = ?m, stdout = [5, 10]\<rparr>"
    by (simp add: print_node_def load_value_def)
  have "walk_and_print_list (Node 0) print_node ?w = Some (visit_all print_node (map Node [0, 1]) ?w)"
    using walk_and_print_list_domain [OF h c] by simp
  then have "walk_and_print_list (Node 0) print_node ?w = Some (Inr \<lparr>heap = ?m, stdout = [5, 10]\<rparr>)"
    by (simp only: v)
  then show ?thesis using c' n by blast
qed

text \<open>
  C4, amended. After a sequence of appends to the empty list that is not empty, all
  allocations succeeding, the walk from the head with \<open>print_node\<close> returns and has
  printed exactly the appended values, once each, in the order of the appends; the tail
  is the node that the last append allocated; the head holds the first value and the
  tail the last.
\<close>

theorem push_nodes_walk:
  assumes "grant_all (node_grants m)" and "vs \<noteq> []"
  shows "\<exists>m' list' m1 list1.
           push_nodes m \<lparr>head = NULL, tail = NULL\<rparr> vs = Inr (m', list') \<and>
           walk_and_print_list (head list') print_node \<lparr>heap = m', stdout = out\<rparr> =
             Some (Inr \<lparr>heap = m', stdout = out @ map sint vs\<rparr>) \<and>
           push_nodes m \<lparr>head = NULL, tail = NULL\<rparr> (butlast vs) = Inr (m1, list1) \<and>
           tail list' = fst (malloc_node m1) \<and>
           load_value m' (head list') = Inr (hd vs) \<and>
           load_value m' (tail list') = Inr (last vs)"
proof -
  let ?l0 = "\<lparr>head = NULL, tail = NULL\<rparr>"
  let ?n = "length (nodes m)"
  let ?ps = "[?n ..< ?n + length vs]"
  have i0: "list_inv m ?l0 []" by (rule list_inv_empty)
  from push_nodes_inv [OF i0 assms(1), of vs]
  obtain m' list' where r: "push_nodes m ?l0 vs = Inr (m', list')"
    "list_inv m' list' ?ps" "node_vals m' ?ps = map Inr vs"
    by (auto simp: node_vals_def)
  from push_nodes_inv [OF i0 assms(1), of "butlast vs"]
  obtain m1 list1 where b: "push_nodes m ?l0 (butlast vs) = Inr (m1, list1)"
    "list_inv m1 list1 [?n ..< ?n + length (butlast vs)]" "grant_all (node_grants m1)"
    "length (nodes m1) = ?n + length (butlast vs)"
    by auto
  have ne: "?ps \<noteq> []" using assms(2) by simp
  have c: "chain m' (head list') ?ps" using r(2) by (simp add: list_inv_def)
  then have hd: "head list' = Node ?n" using assms(2) by (simp add: upt_conv_Cons del: upt_Suc)
  have "hop m' (length ?ps - 1) (head list') = Inr (tail list')"
    using r(2) ne unfolding list_inv_def by blast
  then have tl: "tail list' = Node (last ?ps)" using chain_hop_last [OF c ne] by simp
  have lst: "last ?ps = ?n + length vs - 1" using assms(2) by (simp add: last_upt)
  have "walk_and_print_list (Node ?n) print_node \<lparr>heap = m', stdout = out\<rparr> =
          Some (visit_all print_node (map Node ?ps) \<lparr>heap = m', stdout = out\<rparr>)"
    by (rule walk_chain [OF print_node_heap]) (use c hd in simp_all)
  moreover have "visit_all print_node (map Node ?ps) \<lparr>heap = m', stdout = out\<rparr> =
      Inr (\<lparr>heap = m', stdout = out\<rparr>\<lparr>stdout := stdout \<lparr>heap = m', stdout = out\<rparr> @ map sint vs\<rparr>)"
    by (rule visit_all_print) (use r(3) in simp)
  ultimately have w: "walk_and_print_list (head list') print_node \<lparr>heap = m', stdout = out\<rparr> =
             Some (Inr \<lparr>heap = m', stdout = out @ map sint vs\<rparr>)"
    using hd by simp
  have "fst (malloc_node m1) = Node (length (nodes m1))"
    using malloc_node_granted [OF grant_all_next [OF b(3)]] by simp
  moreover have "0 < length vs" using assms(2) by simp
  ultimately have t: "tail list' = fst (malloc_node m1)" using tl lst b(4) by simp
  have nth: "\<And>k. k < length vs \<Longrightarrow> load_value m' (Node (?n + k)) = Inr (vs ! k)"
  proof -
    fix k assume k: "k < length vs"
    have "node_vals m' ?ps ! k = map Inr vs ! k" using r(3) by simp
    then show "load_value m' (Node (?n + k)) = Inr (vs ! k)" using k by (simp add: node_vals_def)
  qed
  have v1: "load_value m' (head list') = Inr (hd vs)"
    using nth [of 0] assms(2) hd by (simp add: hd_conv_nth)
  have "?n + (length vs - 1) = ?n + length vs - 1" using assms(2) by (cases vs) simp_all
  then have v2: "load_value m' (tail list') = Inr (last vs)"
    using nth [of "length vs - 1"] assms(2) tl lst by (simp add: last_conv_nth)
  show ?thesis using r(1) w b(1) t v1 v2 by blast
qed

text \<open>
  C4 on the appends of 5, 10, 20 and 40, which is \<open>main\<close> of part\_000: the walk prints
  5, 10, 20, 40, the head holds 5 and the tail 40.
\<close>

theorem push_nodes_walk_witness:
  "grant_all (node_grants \<lparr>nodes = [], node_grants = []\<rparr>) \<and>
   push_nodes \<lparr>nodes = [], node_grants = []\<rparr> \<lparr>head = NULL, tail = NULL\<rparr> [5, 10, 20, 40] =
     Inr (\<lparr>nodes = [\<lparr>next_ptr = Some (Node 1), value_int = Some 5\<rparr>,
                    \<lparr>next_ptr = Some (Node 2), value_int = Some 10\<rparr>,
                    \<lparr>next_ptr = Some (Node 3), value_int = Some 20\<rparr>,
                    \<lparr>next_ptr = Some NULL, value_int = Some 40\<rparr>], node_grants = []\<rparr>,
          \<lparr>head = Node 0, tail = Node 3\<rparr>) \<and>
   main_list \<lparr>nodes = [], node_grants = []\<rparr> =
     Some (Inr \<lparr>heap = \<lparr>nodes = [\<lparr>next_ptr = Some (Node 1), value_int = Some 5\<rparr>,
                    \<lparr>next_ptr = Some (Node 2), value_int = Some 10\<rparr>,
                    \<lparr>next_ptr = Some (Node 3), value_int = Some 20\<rparr>,
                    \<lparr>next_ptr = Some NULL, value_int = Some 40\<rparr>], node_grants = []\<rparr>,
                stdout = [5, 10, 20, 40]\<rparr>) \<and>
   load_value \<lparr>nodes = [\<lparr>next_ptr = Some (Node 1), value_int = Some 5\<rparr>,
                    \<lparr>next_ptr = Some (Node 2), value_int = Some 10\<rparr>,
                    \<lparr>next_ptr = Some (Node 3), value_int = Some 20\<rparr>,
                    \<lparr>next_ptr = Some NULL, value_int = Some 40\<rparr>], node_grants = []\<rparr> (Node 0) = Inr 5 \<and>
   load_value \<lparr>nodes = [\<lparr>next_ptr = Some (Node 1), value_int = Some 5\<rparr>,
                    \<lparr>next_ptr = Some (Node 2), value_int = Some 10\<rparr>,
                    \<lparr>next_ptr = Some (Node 3), value_int = Some 20\<rparr>,
                    \<lparr>next_ptr = Some NULL, value_int = Some 40\<rparr>], node_grants = []\<rparr> (Node 3) = Inr 40"
proof -
  let ?m0 = "\<lparr>nodes = [], node_grants = []\<rparr>"
  let ?l0 = "\<lparr>head = NULL, tail = NULL\<rparr>"
  let ?m4 = "\<lparr>nodes = [\<lparr>next_ptr = Some (Node 1), value_int = Some 5\<rparr>,
                    \<lparr>next_ptr = Some (Node 2), value_int = Some 10\<rparr>,
                    \<lparr>next_ptr = Some (Node 3), value_int = Some 20\<rparr>,
                    \<lparr>next_ptr = Some NULL, value_int = Some 40\<rparr>], node_grants = []\<rparr>"
  let ?l4 = "\<lparr>head = Node 0, tail = Node 3\<rparr>"
  have g: "grant_all (node_grants ?m0)" by (simp add: grant_all_def)
  have p: "push_nodes ?m0 ?l0 [5, 10, 20, 40] = Inr (?m4, ?l4)"
    by (simp add: grant_next_def push_node_def malloc_node_def store_value_def store_next_def)
  from push_nodes_walk [OF g, of "[5, 10, 20, 40]" "[]"] p
  have w: "walk_and_print_list (Node 0) print_node \<lparr>heap = ?m4, stdout = []\<rparr> =
           Some (Inr \<lparr>heap = ?m4, stdout = [5, 10, 20, 40]\<rparr>)"
    and v: "load_value ?m4 (Node 0) = Inr 5" "load_value ?m4 (Node 3) = Inr 40"
    by auto
  have "main_list ?m0 = Some (Inr \<lparr>heap = ?m4, stdout = [5, 10, 20, 40]\<rparr>)"
    unfolding main_list_def Let_def p using w by simp
  then show ?thesis using g p v by blast
qed

text \<open>
  C4 as stated fails on the empty sequence of appends: the head is null, and the walk
  from it is a fault instead of a walk that visits nothing.
\<close>

theorem walk_empty_list_counterexample:
  "push_nodes \<lparr>nodes = [], node_grants = []\<rparr> \<lparr>head = NULL, tail = NULL\<rparr> [] =
     Inr (\<lparr>nodes = [], node_grants = []\<rparr>, \<lparr>head = NULL, tail = NULL\<rparr>) \<and>
   walk_and_print_list (head \<lparr>head = NULL, tail = NULL\<rparr>) print_node
     \<lparr>heap = \<lparr>nodes = [], node_grants = []\<rparr>, stdout = []\<rparr> = Some (Inl NullDeref)"
  by (subst walk_and_print_list.simps) (simp add: print_node_def load_value_def)

lemma load_Inr_iff:
  "load m p n = Inr cs \<longleftrightarrow>
   (\<exists>b off bs. p = Ptr b off \<and> b < length (blocks m) \<and> blocks m ! b = Some bs \<and>
      off + n \<le> length bs \<and> cs = take n (drop off bs))"
  by (auto simp: load_def split: byte_ptr.splits option.splits)

lemma store_Inr_iff:
  "store m p vs = Inr m' \<longleftrightarrow>
   (\<exists>b off bs. p = Ptr b off \<and> b < length (blocks m) \<and> blocks m ! b = Some bs \<and>
      off + length vs \<le> length bs \<and>
      m' = m\<lparr>blocks := (blocks m)[b := Some (take off bs @ vs @ drop (off + length vs) bs)]\<rparr>)"
  by (auto simp: store_def split: byte_ptr.splits option.splits)

lemma memcpy_Inr_iff:
  "memcpy m dest src n = Inr m' \<longleftrightarrow>
   (\<exists>cs. load m src (unat n) = Inr cs \<and> \<not> overlap dest src (unat n) \<and> store m dest cs = Inr m')"
  by (auto simp: memcpy_def split: sum.splits)

lemma load_length: "load m p n = Inr cs \<Longrightarrow> length cs = n"
  by (auto simp: load_Inr_iff)

lemma load_block:
  "b < length (blocks m) \<Longrightarrow> blocks m ! b = Some bs \<Longrightarrow> off + n \<le> length bs \<Longrightarrow>
   load m (Ptr b off) n = Inr (take n (drop off bs))"
  by (simp add: load_def)

lemma store_block:
  "b < length (blocks m) \<Longrightarrow> blocks m ! b = Some bs \<Longrightarrow> off + length vs \<le> length bs \<Longrightarrow>
   store m (Ptr b off) vs =
     Inr (m\<lparr>blocks := (blocks m)[b := Some (take off bs @ vs @ drop (off + length vs) bs)]\<rparr>)"
  by (simp add: store_def)

lemma overlap_blocks: "block_of p \<noteq> block_of q \<Longrightarrow> \<not> overlap p q n"
  by (auto simp: overlap_def block_of_def split: byte_ptr.splits)

lemma memcpy_blocks:
  assumes "load m src (unat n) = Inr cs" "block_of dest \<noteq> block_of src"
    "dest = Ptr b off" "b < length (blocks m)" "blocks m ! b = Some bs"
    "off + unat n \<le> length bs"
  shows "memcpy m dest src n =
     Inr (m\<lparr>blocks := (blocks m)[b := Some (take off bs @ cs @ drop (off + unat n) bs)]\<rparr>)"
proof -
  have l: "length cs = unat n" using assms(1) by (rule load_length)
  have "store m dest cs =
     Inr (m\<lparr>blocks := (blocks m)[b := Some (take off bs @ cs @ drop (off + length cs) bs)]\<rparr>)"
    unfolding assms(3) by (rule store_block) (use assms l in simp_all)
  then show ?thesis using assms(1,2) l by (simp add: memcpy_def overlap_blocks)
qed

lemma store_shape:
  assumes "store m p vs = Inr m'"
  shows "length (blocks m') = length (blocks m) \<and> grants m' = grants m \<and>
         (\<forall>b<length (blocks m). map_option length (blocks m' ! b) = map_option length (blocks m ! b))"
proof -
  from assms obtain b off bs where s: "p = Ptr b off" "b < length (blocks m)"
    "blocks m ! b = Some bs" "off + length vs \<le> length bs"
    "m' = m\<lparr>blocks := (blocks m)[b := Some (take off bs @ vs @ drop (off + length vs) bs)]\<rparr>"
    by (auto simp: store_Inr_iff)
  show ?thesis using s(2-4) unfolding s(5) by (auto simp: nth_list_update)
qed

lemma memcpy_shape:
  assumes "memcpy m dest src n = Inr m'"
  shows "length (blocks m') = length (blocks m) \<and> grants m' = grants m \<and>
         (\<forall>b<length (blocks m). map_option length (blocks m' ! b) = map_option length (blocks m ! b))"
  using assms store_shape by (auto simp: memcpy_Inr_iff)

text \<open>Arithmetic of \<open>size_t\<close>.\<close>

lemma unat_bound64: "unat (x :: size_t) < 2 ^ 64"
  using unsigned_less [of x] by simp

lemma unat_mult64:
  "unat x * unat y < 2 ^ 64 \<Longrightarrow> unat (x * y) = unat x * unat (y :: size_t)"
  using unat_mult_lem [of x y] by simp

lemma unat_add64:
  "unat x + unat y < 2 ^ 64 \<Longrightarrow> unat (x + y) = unat x + unat (y :: size_t)"
  using unat_add_lem [of x y] by simp

lemma unat_inc64: "x < (y :: size_t) \<Longrightarrow> unat (x + 1) = unat x + 1"
proof -
  assume "x < y"
  then have "unat x < unat y" by (simp add: word_less_nat_alt)
  then have "unat x + unat (1 :: size_t) < 2 ^ 64" using unat_bound64 [of y] by simp
  then show ?thesis using unat_add64 [of x 1] by simp
qed

lemma unat_dec64: "x \<noteq> 0 \<Longrightarrow> unat (x - 1) = unat (x :: size_t) - 1"
  by (simp add: unat_minus_one)

lemma unat_double64: "2 * unat x < 2 ^ 64 \<Longrightarrow> unat (x * 2) = 2 * unat (x :: size_t)"
  using unat_mult64 [of x 2] by simp

lemma array_okE:
  assumes "array_ok m a"
  obtains b cs where "items a = Ptr b 0" "b < length (blocks m)" "blocks m ! b = Some cs"
    "length cs = unat (cap a) * unat (size_bytes a)"
    "unat (cap a) * unat (size_bytes a) < 2 ^ 64" "0 < unat (cap a)"
    "unat (count a) \<le> unat (cap a)"
  using assms
  by (auto simp: array_ok_def word_le_nat_alt word_less_nat_alt
      split: byte_ptr.splits option.splits)

lemma array_okI:
  assumes "items a = Ptr b 0" "b < length (blocks m)" "blocks m ! b = Some cs"
    "length cs = unat (cap a) * unat (size_bytes a)"
    "unat (cap a) * unat (size_bytes a) < 2 ^ 64" "0 < unat (cap a)"
    "unat (count a) \<le> unat (cap a)"
  shows "array_ok m a"
  using assms by (simp add: array_ok_def word_le_nat_alt word_less_nat_alt)

lemma mult_le_bound:
  fixes s k c :: nat
  assumes "k \<le> c" "c * s < N"
  shows "s * k < N"
proof -
  have "s * k \<le> s * c" using assms(1) by (rule mult_le_mono2)
  also have "s * c = c * s" by (rule mult.commute)
  finally show ?thesis using assms(2) by (rule le_less_trans)
qed

lemma slot_bound:
  fixes s k c :: nat
  assumes "k < c"
  shows "s * k + s \<le> c * s"
proof -
  have "Suc k * s \<le> c * s" using assms by (intro mult_le_mono1) simp
  then show ?thesis by (simp add: mult.commute)
qed

lemma unat_offset:
  assumes "unat (i :: size_t) \<le> unat (c :: size_t)" "unat c * unat (s :: size_t) < 2 ^ 64"
  shows "unat (s * i) = unat s * unat i"
  by (rule unat_mult64) (rule mult_le_bound [OF assms])

lemma push_no_grow:
  assumes ok: "array_ok m a" and lt: "count a < cap a"
    and it: "items a = Ptr b 0" and blk: "blocks m ! b = Some cs"
    and v: "load m val (unat (size_bytes a)) = Inr v"
    and nb: "block_of val \<noteq> Some b"
  shows "push_dyn_array m a val =
     Inr (m\<lparr>blocks := (blocks m)[b := Some (take (unat (size_bytes a) * unat (count a)) cs @ v @
                drop (unat (size_bytes a) * unat (count a) + unat (size_bytes a)) cs)]\<rparr>,
          a\<lparr>count := count a + 1\<rparr>)"
proof -
  let ?s = "unat (size_bytes a)" and ?k = "unat (count a)" and ?c = "unat (cap a)"
  from ok it blk have b: "b < length (blocks m)" and len: "length cs = ?c * ?s"
    and fit: "?c * ?s < 2 ^ 64" and kc: "?k \<le> ?c"
    by (auto elim!: array_okE)
  have k: "?k < ?c" using lt by (simp add: word_less_nat_alt)
  have off: "unat (size_bytes a * count a) = ?s * ?k" by (rule unat_offset [OF kc fit])
  have "memcpy m (Ptr b (?s * ?k)) val (size_bytes a) =
     Inr (m\<lparr>blocks := (blocks m)[b := Some (take (?s * ?k) cs @ v @ drop (?s * ?k + ?s) cs)]\<rparr>)"
    by (rule memcpy_blocks [OF v _ refl b blk])
      (use nb slot_bound [OF k, of ?s] len in \<open>simp_all add: block_of_def\<close>)
  then show ?thesis using lt it off
    by (simp add: push_dyn_array_def ptr_add_def not_le [symmetric])
qed

lemma grow_ok:
  assumes ok: "array_ok m a" and ge: "cap a \<le> count a"
    and it: "items a = Ptr b 0" and blk: "blocks m ! b = Some cs"
    and g: "grant_next (grants m)"
    and fit2: "2 * unat (cap a) * unat (size_bytes a) < 2 ^ 64" "2 * unat (cap a) < 2 ^ 64"
  shows "grow_dyn_array m a =
     Inr (m\<lparr>blocks := (blocks m)[b := None] @
              [Some (cs @ replicate (unat (cap a) * unat (size_bytes a)) None)],
            grants := tl (grants m)\<rparr>,
          a\<lparr>cap := cap a * 2, items := Ptr (length (blocks m)) 0\<rparr>)"
proof -
  let ?s = "unat (size_bytes a)" and ?k = "unat (count a)" and ?c = "unat (cap a)"
  let ?N = "length (blocks m)"
  from ok it blk have b: "b < ?N" and len: "length cs = ?c * ?s"
    and fit: "?c * ?s < 2 ^ 64" and kc: "?k \<le> ?c" and c0: "0 < ?c"
    by (auto elim!: array_okE)
  have k: "?k = ?c" using ge kc by (simp add: word_le_nat_alt)
  have off: "unat (size_bytes a * count a) = ?c * ?s"
    using unat_offset [OF kc fit] k by (simp add: mult.commute)
  have c2: "unat (cap a * 2) = 2 * ?c" by (rule unat_double64 [OF fit2(2)])
  have ns: "unat (cap a * 2 * size_bytes a) = 2 * ?c * ?s"
    using unat_mult64 [of "cap a * 2" "size_bytes a"] c2 fit2(1) by simp
  let ?m1 = "m\<lparr>blocks := blocks m @ [Some (replicate (2 * ?c * ?s) None)], grants := tl (grants m)\<rparr>"
  have mal: "malloc m (cap a * 2 * size_bytes a) = (Ptr ?N 0, ?m1)"
    using g ns by (simp add: malloc_def)
  have ld: "load ?m1 (Ptr b 0) (unat (size_bytes a * count a)) = Inr cs"
    using b blk len off by (simp add: load_def nth_append)
  let ?m2 = "?m1\<lparr>blocks := (blocks ?m1)[?N := Some (cs @ replicate (?c * ?s) None)]\<rparr>"
  have cp: "memcpy ?m1 (Ptr ?N 0) (Ptr b 0) (size_bytes a * count a) = Inr ?m2"
  proof -
    have "memcpy ?m1 (Ptr ?N 0) (Ptr b 0) (size_bytes a * count a) =
        Inr (?m1\<lparr>blocks := (blocks ?m1)[?N := Some (take 0 (replicate (2 * ?c * ?s) None) @ cs @
              drop (0 + unat (size_bytes a * count a)) (replicate (2 * ?c * ?s) None))]\<rparr>)"
      by (rule memcpy_blocks [OF ld _ refl]) (use b off in \<open>simp_all add: block_of_def\<close>)
    then show ?thesis using off by simp
  qed
  let ?m3 = "?m2\<lparr>blocks := (blocks ?m2)[b := None]\<rparr>"
  have fr: "free ?m2 (Ptr b 0) = Inr ?m3"
    using b blk by (simp add: free_def nth_append nth_list_update)
  have final: "?m3 = m\<lparr>blocks := (blocks m)[b := None] @
              [Some (cs @ replicate (?c * ?s) None)], grants := tl (grants m)\<rparr>"
    using b by (simp add: list_update_append)
  show ?thesis
    using mal cp fr it final by (simp add: grow_dyn_array_def Let_def)
qed

lemma push_grow:
  assumes ok: "array_ok m a" and ge: "cap a \<le> count a"
    and it: "items a = Ptr b 0" and blk: "blocks m ! b = Some cs"
    and g: "grant_next (grants m)"
    and fit2: "2 * unat (cap a) * unat (size_bytes a) < 2 ^ 64" "2 * unat (cap a) < 2 ^ 64"
    and v: "load m val (unat (size_bytes a)) = Inr v"
    and nb: "block_of val \<noteq> Some b"
  shows "push_dyn_array m a val =
     Inr (m\<lparr>blocks := (blocks m)[b := None] @
              [Some (cs @ v @ replicate (unat (cap a) * unat (size_bytes a) - unat (size_bytes a)) None)],
            grants := tl (grants m)\<rparr>,
          a\<lparr>cap := cap a * 2, items := Ptr (length (blocks m)) 0, count := count a + 1\<rparr>)"
proof -
  let ?s = "unat (size_bytes a)" and ?k = "unat (count a)" and ?c = "unat (cap a)"
  let ?N = "length (blocks m)"
  from ok it blk have b: "b < ?N" and len: "length cs = ?c * ?s"
    and fit: "?c * ?s < 2 ^ 64" and kc: "?k \<le> ?c" and c0: "0 < ?c"
    by (auto elim!: array_okE)
  have k: "?k = ?c" using ge kc by (simp add: word_le_nat_alt)
  have off: "unat (size_bytes a * count a) = ?c * ?s"
    using unat_offset [OF kc fit] k by (simp add: mult.commute)
  let ?m3 = "m\<lparr>blocks := (blocks m)[b := None] @
              [Some (cs @ replicate (?c * ?s) None)], grants := tl (grants m)\<rparr>"
  have gr: "grow_dyn_array m a = Inr (?m3, a\<lparr>cap := cap a * 2, items := Ptr ?N 0\<rparr>)"
    by (rule grow_ok [OF ok ge it blk g fit2])
  have ld3: "load ?m3 val ?s = Inr v"
  proof -
    from v obtain vb voff bs where vb: "val = Ptr vb voff" "vb < ?N" "blocks m ! vb = Some bs"
      "voff + ?s \<le> length bs" "v = take ?s (drop voff bs)"
      by (auto simp: load_Inr_iff)
    have "vb \<noteq> b" using nb vb(1) by (simp add: block_of_def)
    then have "blocks ?m3 ! vb = Some bs" using vb(2,3) b by (simp add: nth_append nth_list_update)
    then show ?thesis unfolding vb(1,5) using vb(2,4) by (intro load_block) simp_all
  qed
  let ?new = "cs @ v @ replicate (?c * ?s - ?s) None"
  let ?m5 = "?m3\<lparr>blocks := (blocks ?m3)[?N := Some ?new]\<rparr>"
  have lv: "length v = ?s" using v by (rule load_length)
  have sl: "?s \<le> ?c * ?s" using c0 by simp
  have wr: "memcpy ?m3 (Ptr ?N (?c * ?s)) val (size_bytes a) = Inr ?m5"
  proof -
    have nN: "blocks ?m3 ! ?N = Some (cs @ replicate (?c * ?s) None)"
      using b by (simp add: nth_append)
    have "memcpy ?m3 (Ptr ?N (?c * ?s)) val (size_bytes a) =
        Inr (?m3\<lparr>blocks := (blocks ?m3)[?N := Some (take (?c * ?s) (cs @ replicate (?c * ?s) None) @ v @
              drop (?c * ?s + ?s) (cs @ replicate (?c * ?s) None))]\<rparr>)"
    proof (rule memcpy_blocks [OF ld3 _ refl _ nN])
      show "block_of (Ptr ?N (?c * ?s)) \<noteq> block_of val"
        using v by (auto simp: load_Inr_iff block_of_def)
      show "?N < length (blocks ?m3)" by simp
      show "?c * ?s + ?s \<le> length (cs @ replicate (?c * ?s) None)" using len sl by simp
    qed
    then show ?thesis using len sl by simp
  qed
  have final: "?m5 = m\<lparr>blocks := (blocks m)[b := None] @ [Some ?new], grants := tl (grants m)\<rparr>"
    using b by (simp add: list_update_append)
  show ?thesis
    unfolding push_dyn_array_def using ge gr wr off final
    by (simp add: ptr_add_def)
qed

lemma stored_block:
  assumes "array_ok m a" "items a = Ptr b 0" "blocks m ! b = Some cs"
  shows "stored m a = Inr (take (unat (size_bytes a) * unat (count a)) cs)"
proof -
  let ?s = "unat (size_bytes a)" and ?k = "unat (count a)" and ?c = "unat (cap a)"
  from assms have b: "b < length (blocks m)" and len: "length cs = ?c * ?s"
    and fit: "?c * ?s < 2 ^ 64" and kc: "?k \<le> ?c"
    by (auto elim!: array_okE)
  have off: "unat (size_bytes a * count a) = ?s * ?k" by (rule unat_offset [OF kc fit])
  have "?s * ?k \<le> ?c * ?s" using kc by (simp add: mult.commute)
  then show ?thesis using b assms(2,3) len off by (simp add: stored_def load_def)
qed

lemma element_at_block:
  assumes "array_ok m a" "items a = Ptr b 0" "blocks m ! b = Some cs" "unat i < unat (cap a)"
  shows "element_at m a i = Inr (take (unat (size_bytes a)) (drop (unat (size_bytes a) * unat i) cs))"
proof -
  let ?s = "unat (size_bytes a)" and ?c = "unat (cap a)"
  from assms have b: "b < length (blocks m)" and len: "length cs = ?c * ?s"
    and fit: "?c * ?s < 2 ^ 64"
    by (auto elim!: array_okE)
  have off: "unat (size_bytes a * i) = ?s * unat i"
    by (rule unat_offset [OF _ fit]) (use assms(4) in simp)
  show ?thesis
    using b assms(2,3) len off slot_bound [OF assms(4), of ?s]
    by (simp add: element_at_def ptr_add_def load_def)
qed

lemma element_at_stored:
  assumes "array_ok m a" "stored m a = Inr st" "unat i < unat (count a)"
  shows "element_at m a i = Inr (take (unat (size_bytes a)) (drop (unat (size_bytes a) * unat i) st))"
proof -
  let ?s = "unat (size_bytes a)" and ?k = "unat (count a)"
  from assms(1) obtain b cs where bc: "items a = Ptr b 0" "blocks m ! b = Some cs"
    "unat (count a) \<le> unat (cap a)"
    by (auto elim!: array_okE)
  have st: "st = take (?s * ?k) cs" using stored_block [OF assms(1) bc(1,2)] assms(2) by simp
  have i: "unat i < unat (cap a)" using assms(3) bc(3) by simp
  have le: "?s * unat i + ?s \<le> ?s * ?k"
    using slot_bound [OF assms(3), of ?s] by (simp add: mult.commute)
  have "take ?s (drop (?s * unat i) (take (?s * ?k) cs)) = take ?s (drop (?s * unat i) cs)"
    using le by (simp add: drop_take min_def)
  then show ?thesis using element_at_block [OF assms(1) bc(1,2) i] st by simp
qed

lemma stored_length:
  assumes "array_ok m a" "stored m a = Inr st"
  shows "length st = unat (size_bytes a) * unat (count a)"
proof -
  from assms(1) obtain b cs where bc: "items a = Ptr b 0" "blocks m ! b = Some cs"
    "unat (count a) \<le> unat (cap a)" "length cs = unat (cap a) * unat (size_bytes a)"
    by (auto elim!: array_okE)
  have "unat (size_bytes a) * unat (count a) \<le> unat (cap a) * unat (size_bytes a)"
    using bc(3) by (simp add: mult.commute)
  then show ?thesis using stored_block [OF assms(1) bc(1,2)] assms(2) bc(4) by auto
qed

lemma take_two_parts: "length p + length v = n \<Longrightarrow> take n (p @ v @ d) = p @ v"
  by simp

lemma push_ok:
  assumes ok: "array_ok m a"
    and v: "load m val (unat (size_bytes a)) = Inr v"
    and nb: "block_of val \<noteq> block_of (items a)"
    and room: "count a < cap a \<or>
       (grant_next (grants m) \<and> 2 * unat (cap a) * unat (size_bytes a) < 2 ^ 64 \<and>
        2 * unat (cap a) < 2 ^ 64)"
  shows "\<exists>m' a' st. push_dyn_array m a val = Inr (m', a') \<and> array_ok m' a' \<and>
           size_bytes a' = size_bytes a \<and> count a' = count a + 1 \<and>
           unat (count a') = Suc (unat (count a)) \<and>
           cap a' = (if count a < cap a then cap a else cap a * 2) \<and>
           unat (cap a) \<le> unat (cap a') \<and>
           items a' = (if count a < cap a then items a else Ptr (length (blocks m)) 0) \<and>
           stored m a = Inr st \<and> stored m' a' = Inr (st @ v) \<and>
           grants m' = (if count a < cap a then grants m else tl (grants m)) \<and>
           length (blocks m) \<le> length (blocks m') \<and>
           (\<forall>b<length (blocks m). Some b \<noteq> block_of (items a) \<longrightarrow> blocks m' ! b = blocks m ! b) \<and>
           (count a < cap a \<or> load m' (items a) 0 = Inl UseAfterFree)"
proof -
  let ?s = "unat (size_bytes a)" and ?k = "unat (count a)" and ?c = "unat (cap a)"
  from ok obtain b cs where bc: "items a = Ptr b 0" "b < length (blocks m)"
    "blocks m ! b = Some cs" "length cs = ?c * ?s" "?c * ?s < 2 ^ 64" "0 < ?c" "?k \<le> ?c"
    by (auto elim!: array_okE)
  have nb': "block_of val \<noteq> Some b" using nb bc(1) by (simp add: block_of_def)
  have lv: "length v = ?s" using v by (rule load_length)
  have st: "stored m a = Inr (take (?s * ?k) cs)" by (rule stored_block [OF ok bc(1,3)])
  show ?thesis
  proof (cases "count a < cap a")
    case True
    let ?cs' = "take (?s * ?k) cs @ v @ drop (?s * ?k + ?s) cs"
    let ?m' = "m\<lparr>blocks := (blocks m)[b := Some ?cs']\<rparr>"
    let ?a' = "a\<lparr>count := count a + 1\<rparr>"
    have k: "?k < ?c" using True by (simp add: word_less_nat_alt)
    have sb: "?s * ?k + ?s \<le> ?c * ?s" by (rule slot_bound [OF k])
    have p: "push_dyn_array m a val = Inr (?m', ?a')"
      by (rule push_no_grow [OF ok True bc(1,3) v nb'])
    have k': "unat (count a + 1) = Suc ?k" using unat_inc64 [OF True] by simp
    have len': "length ?cs' = ?c * ?s" using sb bc(4) lv by simp
    have ok': "array_ok ?m' ?a'"
      by (rule array_okI [where b = b and cs = ?cs'])
        (use bc len' k k' in simp_all)
    have "stored ?m' ?a' = Inr (take (?s * Suc ?k) ?cs')"
      using stored_block [OF ok', of b ?cs'] bc(1,2) k' by simp
    moreover have "take (?s * Suc ?k) ?cs' = take (?s * ?k) cs @ v"
    proof (rule take_two_parts)
      have "length (take (?s * ?k) cs) = ?s * ?k" using sb bc(4) by simp
      then show "length (take (?s * ?k) cs) + length v = ?s * Suc ?k" using lv by simp
    qed
    ultimately have st': "stored ?m' ?a' = Inr (take (?s * ?k) cs @ v)" by simp
    have fr: "\<forall>b'<length (blocks m). Some b' \<noteq> block_of (items a) \<longrightarrow> blocks ?m' ! b' = blocks m ! b'"
      using bc(1) by (simp add: block_of_def nth_list_update)
    show ?thesis using p ok' k' st st' True fr by simp
  next
    case False
    then have ge: "cap a \<le> count a" by simp
    from room False have g: "grant_next (grants m)" and fit2: "2 * ?c * ?s < 2 ^ 64" "2 * ?c < 2 ^ 64"
      by simp_all
    have k: "?k = ?c" using ge bc(7) by (simp add: word_le_nat_alt)
    let ?new = "cs @ v @ replicate (?c * ?s - ?s) None"
    let ?N = "length (blocks m)"
    let ?m' = "m\<lparr>blocks := (blocks m)[b := None] @ [Some ?new], grants := tl (grants m)\<rparr>"
    let ?a' = "a\<lparr>cap := cap a * 2, items := Ptr ?N 0, count := count a + 1\<rparr>"
    have p: "push_dyn_array m a val = Inr (?m', ?a')"
      by (rule push_grow [OF ok ge bc(1,3) g fit2 v nb'])
    have c2: "unat (cap a * 2) = 2 * ?c" by (rule unat_double64 [OF fit2(2)])
    have "unat (count a) + unat (1 :: size_t) < 2 ^ 64" using k fit2(2) bc(6) by simp
    then have k': "unat (count a + 1) = Suc ?k" using unat_add64 [of "count a" 1] by simp
    have sl: "?s \<le> ?c * ?s" using bc(6) by simp
    have len': "length ?new = 2 * ?c * ?s" using bc(4) lv sl by simp
    have ok': "array_ok ?m' ?a'"
      by (rule array_okI [where b = ?N and cs = ?new])
        (use len' c2 k' k fit2 bc(6) in \<open>simp_all add: nth_append\<close>)
    have "stored ?m' ?a' = Inr (take (?s * Suc ?k) ?new)"
      using stored_block [OF ok', of ?N ?new] k' by (simp add: nth_append)
    moreover have "take (?s * Suc ?k) ?new = cs @ v"
      by (rule take_two_parts) (use bc(4) lv k in \<open>simp add: mult.commute\<close>)
    moreover have "take (?s * ?k) cs = cs" using bc(4) k by (simp add: mult.commute)
    ultimately have st': "stored ?m' ?a' = Inr (take (?s * ?k) cs @ v)" by simp
    have fr: "\<forall>b'<length (blocks m). Some b' \<noteq> block_of (items a) \<longrightarrow> blocks ?m' ! b' = blocks m ! b'"
      using bc(1) by (simp add: block_of_def nth_append nth_list_update)
    have uaf: "load ?m' (items a) 0 = Inl UseAfterFree"
      using bc(1,2) by (simp add: load_def nth_append)
    show ?thesis using p ok' k' st st' False fr c2 uaf by simp
  qed
qed

lemma new_dyn_array_granted:
  assumes "grant_next (grants m)" "grant_next (tl (grants m))"
  shows "new_dyn_array m n =
     Inr (m\<lparr>blocks := blocks m @ [Some (replicate 32 None), Some (replicate (unat (n * 2)) None)],
            grants := tl (tl (grants m))\<rparr>,
          \<lparr>items = Ptr (Suc (length (blocks m))) 0, count = 0, cap = 2, size_bytes = n\<rparr>)"
  using assms by (simp add: new_dyn_array_def malloc_def sizeof_DynArray_def)

lemma new_dyn_array_ok:
  assumes "grant_next (grants m)" "grant_next (tl (grants m))" "2 * unat n < 2 ^ 64"
  shows "\<exists>m' a. new_dyn_array m n = Inr (m', a) \<and> array_ok m' a \<and> size_bytes a = n \<and>
           count a = 0 \<and> cap a = 2 \<and> stored m' a = Inr [] \<and>
           grants m' = tl (tl (grants m))"
proof -
  let ?N = "length (blocks m)"
  let ?m' = "m\<lparr>blocks := blocks m @ [Some (replicate 32 None), Some (replicate (unat (n * 2)) None)],
            grants := tl (tl (grants m))\<rparr>"
  let ?a = "\<lparr>items = Ptr (Suc ?N) 0, count = 0, cap = 2, size_bytes = n\<rparr>"
  have n2: "unat (n * 2) = 2 * unat n" by (rule unat_double64 [OF assms(3)])
  have ok: "array_ok ?m' ?a"
    by (rule array_okI [where b = "Suc ?N" and cs = "replicate (unat (n * 2)) None"])
      (use n2 assms(3) in \<open>simp_all add: nth_append\<close>)
  have "stored ?m' ?a = Inr []"
    using stored_block [OF ok, of "Suc ?N" "replicate (unat (n * 2)) None"]
    by (simp add: nth_append)
  then show ?thesis using new_dyn_array_granted [OF assms(1,2), of n] ok by simp
qed

lemma array_ok_local:
  assumes "array_ok m a"
  shows "array_ok (m\<lparr>blocks := blocks m @ bs\<rparr>) a"
proof -
  from assms obtain b cs where bc: "items a = Ptr b 0" "b < length (blocks m)"
    "blocks m ! b = Some cs" "length cs = unat (cap a) * unat (size_bytes a)"
    "unat (cap a) * unat (size_bytes a) < 2 ^ 64" "0 < unat (cap a)"
    "unat (count a) \<le> unat (cap a)"
    by (auto elim!: array_okE)
  show ?thesis
    by (rule array_okI [where b = b and cs = cs]) (use bc in \<open>simp_all add: nth_append\<close>)
qed

lemma stored_local:
  assumes "array_ok m a"
  shows "stored (m\<lparr>blocks := blocks m @ bs\<rparr>) a = stored m a"
proof -
  from assms obtain b cs where bc: "items a = Ptr b 0" "b < length (blocks m)"
    "blocks m ! b = Some cs"
    by (auto elim!: array_okE)
  have "blocks (m\<lparr>blocks := blocks m @ bs\<rparr>) ! b = Some cs" using bc(2,3) by (simp add: nth_append)
  from stored_block [OF array_ok_local [OF assms] bc(1) this] stored_block [OF assms bc(1,3)]
  show ?thesis by simp
qed

lemma concat_chunk:
  assumes "\<forall>x\<in>set xs. length x = s" "i < length xs"
  shows "take s (drop (s * i) (concat xs)) = xs ! i"
  using assms
proof (induction xs arbitrary: i)
  case Nil
  then show ?case by simp
next
  case (Cons x xs)
  show ?case
  proof (cases i)
    case 0
    then show ?thesis using Cons.prems by simp
  next
    case (Suc j)
    have "drop (s * Suc j) (x @ concat xs) = drop (s * j) (concat xs)"
      using Cons.prems(1) by simp
    then show ?thesis using Cons.IH [of j] Cons.prems Suc by simp
  qed
qed

lemma push_values_ok:
  assumes "array_ok m a" "stored m a = Inr (concat xs)" "unat (count a) = length xs"
    and "\<forall>v\<in>set vs. length v = unat (size_bytes a)"
    and "grant_all (grants m)"
    and "2 * (length xs + length vs) * unat (size_bytes a) < 2 ^ 64"
    and "2 * (length xs + length vs) < 2 ^ 64"
  shows "\<exists>m' a'. push_values m a vs = Inr (m', a') \<and> array_ok m' a' \<and>
           size_bytes a' = size_bytes a \<and> stored m' a' = Inr (concat (xs @ vs)) \<and>
           unat (count a') = length xs + length vs \<and> unat (cap a) \<le> unat (cap a') \<and>
           grant_all (grants m')"
  using assms
proof (induction vs arbitrary: m a xs)
  case Nil
  then show ?case by simp
next
  case (Cons v vs)
  let ?s = "unat (size_bytes a)"
  let ?N = "length (blocks m)"
  let ?m1 = "m\<lparr>blocks := blocks m @ [Some v]\<rparr>"
  have lv: "length v = ?s" using Cons.prems(4) by simp
  have ok1: "array_ok ?m1 a" by (rule array_ok_local [OF Cons.prems(1)])
  have st1: "stored ?m1 a = Inr (concat xs)" using stored_local [OF Cons.prems(1)] Cons.prems(2) by simp
  have ld: "load ?m1 (Ptr ?N 0) ?s = Inr v" using lv by (simp add: load_def)
  from Cons.prems(1) obtain b where b: "items a = Ptr b 0" "b < ?N" "unat (count a) \<le> unat (cap a)"
    by (auto elim!: array_okE)
  have nb: "block_of (Ptr ?N 0) \<noteq> block_of (items a)" using b by (simp add: block_of_def)
  have room: "count a < cap a \<or>
       (grant_next (grants ?m1) \<and> 2 * unat (cap a) * ?s < 2 ^ 64 \<and> 2 * unat (cap a) < 2 ^ 64)"
  proof (cases "count a < cap a")
    case True
    then show ?thesis by simp
  next
    case False
    then have "unat (cap a) = length xs" using b(3) Cons.prems(3) by (simp add: word_less_nat_alt)
    moreover have "2 * length xs * ?s \<le> 2 * (length xs + length (v # vs)) * ?s"
      by (intro mult_le_mono) simp_all
    ultimately show ?thesis
      using Cons.prems(6,7) grant_all_next [OF Cons.prems(5)] by simp
  qed
  from push_ok [OF ok1 ld nb room]
  obtain m2 a2 st where p: "push_dyn_array ?m1 a (Ptr ?N 0) = Inr (m2, a2)" "array_ok m2 a2"
    "size_bytes a2 = size_bytes a" "unat (count a2) = Suc (unat (count a))"
    "unat (cap a) \<le> unat (cap a2)" "stored ?m1 a = Inr st" "stored m2 a2 = Inr (st @ v)"
    "grants m2 = (if count a < cap a then grants ?m1 else tl (grants ?m1))"
    by blast
  have st2: "stored m2 a2 = Inr (concat (xs @ [v]))" using p(6,7) st1 by simp
  have g2: "grant_all (grants m2)"
    using p(8) Cons.prems(5) grant_all_tl [OF Cons.prems(5)] by (simp split: if_splits)
  have "\<exists>m' a'. push_values m2 a2 vs = Inr (m', a') \<and> array_ok m' a' \<and>
           size_bytes a' = size_bytes a2 \<and> stored m' a' = Inr (concat ((xs @ [v]) @ vs)) \<and>
           unat (count a') = length (xs @ [v]) + length vs \<and> unat (cap a2) \<le> unat (cap a') \<and>
           grant_all (grants m')"
    by (rule Cons.IH [OF p(2) st2 _ _ g2])
      (use p(3,4) Cons.prems(3,4,6,7) in simp_all)
  then obtain m' a' where r: "push_values m2 a2 vs = Inr (m', a')" "array_ok m' a'"
    "size_bytes a' = size_bytes a2" "stored m' a' = Inr (concat ((xs @ [v]) @ vs))"
    "unat (count a') = length (xs @ [v]) + length vs" "unat (cap a2) \<le> unat (cap a')"
    "grant_all (grants m')"
    by blast
  have "push_values m a (v # vs) = Inr (m', a')" using p(1) r(1) by (simp add: local_var_def)
  then show ?case using r p(3,5) by simp
qed

lemma sizes_fitD:
  assumes "sizes_fit n k"
  shows "2 * unat n < 2 ^ 64" "2 * k * unat n < 2 ^ 64" "2 * k < 2 ^ 64"
proof -
  have f: "2 * max 1 k * max 1 (unat n) < 2 ^ 64" using assms by (simp add: sizes_fit_def)
  have "2 * unat n \<le> 2 * max 1 k * max 1 (unat n)"
    using mult_le_mono [of 1 "max 1 k" "unat n" "max 1 (unat n)"] by simp
  then show "2 * unat n < 2 ^ 64" using f by (rule le_less_trans)
  have "2 * k * unat n \<le> 2 * max 1 k * max 1 (unat n)"
    using mult_le_mono [of k "max 1 k" "unat n" "max 1 (unat n)"] by simp
  then show "2 * k * unat n < 2 ^ 64" using f by (rule le_less_trans)
  have "2 * k \<le> 2 * max 1 k * max 1 (unat n)"
    using mult_le_mono [of k "max 1 k" 1 "max 1 (unat n)"] by simp
  then show "2 * k < 2 ^ 64" using f by (rule le_less_trans)
qed

lemma create_push_values:
  assumes "grant_all (grants m)" "sizes_fit n (length vs)" "\<forall>v\<in>set vs. length v = unat n"
  shows "\<exists>m1 a m' a'. new_dyn_array m n = Inr (m1, a) \<and> cap a = 2 \<and> count a = 0 \<and>
           push_values m1 a vs = Inr (m', a') \<and> array_ok m' a' \<and> size_bytes a' = n \<and>
           unat (count a') = length vs \<and> stored m' a' = Inr (concat vs)"
proof -
  note f = sizes_fitD [OF assms(2)]
  have g1: "grant_next (grants m)" by (rule grant_all_next [OF assms(1)])
  have g2: "grant_next (tl (grants m))" by (rule grant_all_next [OF grant_all_tl [OF assms(1)]])
  from new_dyn_array_ok [OF g1 g2 f(1)]
  obtain m1 a where c: "new_dyn_array m n = Inr (m1, a)" "array_ok m1 a" "size_bytes a = n"
    "count a = 0" "cap a = 2" "stored m1 a = Inr []" "grants m1 = tl (tl (grants m))"
    by blast
  have g: "grant_all (grants m1)"
    using c(7) grant_all_tl [OF grant_all_tl [OF assms(1)]] by simp
  have "\<exists>m' a'. push_values m1 a vs = Inr (m', a') \<and> array_ok m' a' \<and>
           size_bytes a' = size_bytes a \<and> stored m' a' = Inr (concat ([] @ vs)) \<and>
           unat (count a') = length ([] :: cell list list) + length vs \<and>
           unat (cap a) \<le> unat (cap a') \<and> grant_all (grants m')"
    by (rule push_values_ok [OF c(2) _ _ _ g]) (use c(3,4,6) assms(3) f in simp_all)
  then show ?thesis using c(1,3,4,5) by auto
qed

lemma unat_of_nat64: "i < 2 ^ 64 \<Longrightarrow> unat (of_nat i :: size_t) = i"
  by (simp add: unat_of_nat)

lemma replicate_numeral_unfold: "replicate (numeral k) x = x # replicate (pred_numeral k) x"
  by (simp add: numeral_eq_Suc)

lemmas dyn_eval =
  new_dyn_array_def push_dyn_array_def grow_dyn_array_def pop_dyn_array_def
  malloc_def free_def memcpy_def load_def store_def overlap_def ptr_add_def
  local_var_def element_at_def sizeof_DynArray_def grant_next_def
  word_le_nat_alt word_less_nat_alt replicate_numeral_unfold

lemma load_store_same:
  assumes "store m p vs = Inr m'"
  shows "load m' p (length vs) = Inr vs"
proof -
  from assms obtain b off bs where s: "p = Ptr b off" "b < length (blocks m)"
    "blocks m ! b = Some bs" "off + length vs \<le> length bs"
    "m' = m\<lparr>blocks := (blocks m)[b := Some (take off bs @ vs @ drop (off + length vs) bs)]\<rparr>"
    by (auto simp: store_Inr_iff)
  show ?thesis unfolding s(1,5) using s(2,4) by (simp add: load_def)
qed

lemma pop_empty: "count a = 0 \<Longrightarrow> pop_dyn_array m a popped = Inr (0, m, a)"
  by (simp add: pop_dyn_array_def)

lemma pop_ok:
  assumes ok: "array_ok m a" and ne: "count a \<noteq> 0"
    and w: "load m popped (unat (size_bytes a)) = Inr old"
    and nb: "block_of popped \<noteq> block_of (items a)"
  shows "\<exists>m' e. pop_dyn_array m a popped = Inr (1, m', a\<lparr>count := count a - 1\<rparr>) \<and>
           element_at m a (count a - 1) = Inr e \<and>
           load m' popped (unat (size_bytes a)) = Inr e \<and>
           unat (count a - 1) = unat (count a) - 1 \<and>
           length (blocks m') = length (blocks m) \<and> grants m' = grants m \<and>
           (\<forall>b. Some b \<noteq> block_of popped \<longrightarrow> blocks m' ! b = blocks m ! b) \<and>
           array_ok m' (a\<lparr>count := count a - 1\<rparr>)"
proof -
  let ?s = "unat (size_bytes a)" and ?k = "unat (count a)" and ?c = "unat (cap a)"
  let ?i = "count a - 1"
  from ok obtain b cs where bc: "items a = Ptr b 0" "b < length (blocks m)"
    "blocks m ! b = Some cs" "length cs = ?c * ?s" "?c * ?s < 2 ^ 64" "0 < ?c" "?k \<le> ?c"
    by (auto elim!: array_okE)
  have k0: "0 < ?k" using ne by (simp add: unat_gt_0)
  have ui: "unat ?i = ?k - 1" by (rule unat_dec64 [OF ne])
  have ic: "unat ?i < ?c" using ui k0 bc(7) by simp
  let ?e = "take ?s (drop (?s * unat ?i) cs)"
  have el: "element_at m a ?i = Inr ?e" by (rule element_at_block [OF ok bc(1,3) ic])
  have off: "unat (?i * size_bytes a) = ?s * unat ?i"
    using unat_offset [OF less_imp_le [OF ic] bc(5)] by (simp add: mult.commute)
  have src: "load m (Ptr b (?s * unat ?i)) ?s = Inr ?e"
    using el bc(1) unat_offset [OF less_imp_le [OF ic] bc(5)]
    by (simp add: element_at_def ptr_add_def)
  from w obtain pb poff bs where p: "popped = Ptr pb poff" "pb < length (blocks m)"
    "blocks m ! pb = Some bs" "poff + ?s \<le> length bs"
    by (auto simp: load_Inr_iff)
  have pbb: "pb \<noteq> b" using nb p(1) bc(1) by (simp add: block_of_def)
  let ?m' = "m\<lparr>blocks := (blocks m)[pb := Some (take poff bs @ ?e @ drop (poff + ?s) bs)]\<rparr>"
  have cp: "memcpy m popped (Ptr b (?s * unat ?i)) (size_bytes a) = Inr ?m'"
    unfolding p(1)
    by (rule memcpy_blocks [OF src _ refl p(2,3,4)]) (use pbb in \<open>simp add: block_of_def\<close>)
  have pop: "pop_dyn_array m a popped = Inr (1, ?m', a\<lparr>count := ?i\<rparr>)"
    using ne cp bc(1) off by (simp add: pop_dyn_array_def ptr_add_def)
  have le: "length ?e = ?s" using src by (rule load_length)
  have st: "store m popped ?e = Inr ?m'"
    unfolding p(1) using store_block [OF p(2,3), of poff ?e] p(4) le by simp
  have ld: "load ?m' popped ?s = Inr ?e" using load_store_same [OF st] le by simp
  have fr: "\<forall>b'. Some b' \<noteq> block_of popped \<longrightarrow> blocks ?m' ! b' = blocks m ! b'"
    using p(1) by (simp add: block_of_def)
  have ok': "array_ok ?m' (a\<lparr>count := ?i\<rparr>)"
    by (rule array_okI [where b = b and cs = cs]) (use bc pbb ui in simp_all)
  show ?thesis using pop el ld ui fr ok' by simp
qed

lemma pop_Inr_effect:
  assumes p: "pop_dyn_array m a popped = Inr (r, m', a')" and ne: "count a \<noteq> 0"
  shows "r = 1 \<and> a' = a\<lparr>count := count a - 1\<rparr> \<and>
         (\<exists>e. element_at m a (count a - 1) = Inr e \<and>
              load m' popped (unat (size_bytes a)) = Inr e)"
proof -
  let ?src = "ptr_add (items a) ((count a - 1) * size_bytes a)"
  from p ne have cp: "memcpy m popped ?src (size_bytes a) = Inr m'"
    and r: "r = 1" "a' = a\<lparr>count := count a - 1\<rparr>"
    by (auto simp: pop_dyn_array_def Let_def split: sum.splits)
  from cp obtain e where e: "load m ?src (unat (size_bytes a)) = Inr e" "store m popped e = Inr m'"
    by (auto simp: memcpy_Inr_iff)
  have "element_at m a (count a - 1) = Inr e"
    using e(1) by (simp add: element_at_def mult.commute)
  moreover have "load m' popped (unat (size_bytes a)) = Inr e"
    using load_store_same [OF e(2)] load_length [OF e(1)] by simp
  ultimately show ?thesis using r by blast
qed

text \<open>
  C3. \<open>pop_dyn_array\<close> on an array of count 0 returns 0, and the memory, with it the
  buffer of the caller, and the array are as before: the empty case is a return value,
  never a fault, whatever the pointers are. On an array of positive count, whenever
  the call returns, it returns 1, the buffer holds the \<open>size\<close> bytes of the element at
  index \<open>count - 1\<close>, and the count is one less and nothing else of the array has
  changed. The call does return on an array whose storage is well formed, for a buffer
  of \<open>size\<close> writable bytes outside the storage, and no other block of the memory
  changes.
\<close>

theorem pop_dyn_array_result:
  "(count array = 0 \<longrightarrow> pop_dyn_array m array popped = Inr (0, m, array)) \<and>
   (count array \<noteq> 0 \<and> pop_dyn_array m array popped = Inr (r, m', array') \<longrightarrow>
      r = 1 \<and> array' = array\<lparr>count := count array - 1\<rparr> \<and>
      unat (count array') = unat (count array) - 1 \<and>
      (\<exists>e. element_at m array (count array - 1) = Inr e \<and>
           load m' popped (unat (size_bytes array)) = Inr e)) \<and>
   (count array \<noteq> 0 \<and> array_ok m array \<and>
    load m popped (unat (size_bytes array)) = Inr old \<and>
    block_of popped \<noteq> block_of (items array) \<longrightarrow>
      (\<exists>m1. pop_dyn_array m array popped = Inr (1, m1, array\<lparr>count := count array - 1\<rparr>) \<and>
         (\<forall>b. Some b \<noteq> block_of popped \<longrightarrow> blocks m1 ! b = blocks m ! b)))"
proof (intro conjI impI)
  assume "count array = 0"
  then show "pop_dyn_array m array popped = Inr (0, m, array)" by (rule pop_empty)
next
  assume a: "count array \<noteq> 0 \<and> pop_dyn_array m array popped = Inr (r, m', array')"
  then have ne: "count array \<noteq> 0"
    and p: "pop_dyn_array m array popped = Inr (r, m', array')"
    by simp_all
  note e = pop_Inr_effect [OF p ne]
  from e show "r = 1" by simp
  from e show "array' = array\<lparr>count := count array - 1\<rparr>" by simp
  from e show "unat (count array') = unat (count array) - 1" using unat_dec64 [OF ne] by simp
  from e show "\<exists>e. element_at m array (count array - 1) = Inr e \<and>
           load m' popped (unat (size_bytes array)) = Inr e"
    by simp
next
  assume a: "count array \<noteq> 0 \<and> array_ok m array \<and>
    load m popped (unat (size_bytes array)) = Inr old \<and>
    block_of popped \<noteq> block_of (items array)"
  from a have 1: "array_ok m array" and 2: "count array \<noteq> 0"
    and 3: "load m popped (unat (size_bytes array)) = Inr old"
    and 4: "block_of popped \<noteq> block_of (items array)"
    by simp_all
  from pop_ok [OF 1 2 3 4]
  show "\<exists>m1. pop_dyn_array m array popped = Inr (1, m1, array\<lparr>count := count array - 1\<rparr>) \<and>
         (\<forall>b. Some b \<noteq> block_of popped \<longrightarrow> blocks m1 ! b = blocks m ! b)"
    by blast
qed

text \<open>C3 on an array of two elements of one byte, and on the same array with count 0.\<close>

theorem pop_dyn_array_result_witness:
  "array_ok \<lparr>blocks = [Some [Some 7, Some 9], Some [None]], grants = []\<rparr>
     \<lparr>items = Ptr 0 0, count = 2, cap = 2, size_bytes = 1\<rparr> \<and>
   load \<lparr>blocks = [Some [Some 7, Some 9], Some [None]], grants = []\<rparr> (Ptr 1 0) 1 = Inr [None] \<and>
   pop_dyn_array \<lparr>blocks = [Some [Some 7, Some 9], Some [None]], grants = []\<rparr>
     \<lparr>items = Ptr 0 0, count = 2, cap = 2, size_bytes = 1\<rparr> (Ptr 1 0) =
     Inr (1, \<lparr>blocks = [Some [Some 7, Some 9], Some [Some 9]], grants = []\<rparr>,
          \<lparr>items = Ptr 0 0, count = 1, cap = 2, size_bytes = 1\<rparr>) \<and>
   load \<lparr>blocks = [Some [Some 7, Some 9], Some [Some 9]], grants = []\<rparr> (Ptr 1 0) 1 =
     element_at \<lparr>blocks = [Some [Some 7, Some 9], Some [None]], grants = []\<rparr>
       \<lparr>items = Ptr 0 0, count = 2, cap = 2, size_bytes = 1\<rparr> 1 \<and>
   pop_dyn_array \<lparr>blocks = [Some [Some 7, Some 9], Some [None]], grants = []\<rparr>
     \<lparr>items = Ptr 0 0, count = 0, cap = 2, size_bytes = 1\<rparr> (Ptr 1 0) =
     Inr (0, \<lparr>blocks = [Some [Some 7, Some 9], Some [None]], grants = []\<rparr>,
          \<lparr>items = Ptr 0 0, count = 0, cap = 2, size_bytes = 1\<rparr>)"
proof -
  let ?m = "\<lparr>blocks = [Some [Some 7, Some 9], Some [None]], grants = []\<rparr>"
  let ?a = "\<lparr>items = Ptr 0 0, count = 2, cap = 2, size_bytes = 1\<rparr>"
  let ?z = "\<lparr>items = Ptr 0 0, count = 0, cap = 2, size_bytes = 1\<rparr>"
  let ?m' = "\<lparr>blocks = [Some [Some 7, Some 9], Some [Some 9]], grants = []\<rparr>"
  let ?a' = "\<lparr>items = Ptr 0 0, count = 1, cap = 2, size_bytes = 1\<rparr>"
  have ok: "array_ok ?m ?a" by (simp add: array_ok_def word_le_nat_alt word_less_nat_alt)
  have ld: "load ?m (Ptr 1 0) 1 = Inr [None]" by (simp add: load_def)
  have z: "pop_dyn_array ?m ?z (Ptr 1 0) = Inr (0, ?m, ?z)"
    by (rule pop_dyn_array_result [where array = ?z and m = ?m and popped = "Ptr 1 0",
          THEN conjunct1, rule_format])
      simp
  have ne: "count ?a \<noteq> 0" by simp
  have ld': "load ?m (Ptr 1 0) (unat (size_bytes ?a)) = Inr [None]" by (simp add: load_def)
  have nb: "block_of (Ptr 1 0) \<noteq> block_of (items ?a)" by (simp add: block_of_def)
  have "\<exists>m1. pop_dyn_array ?m ?a (Ptr 1 0) = Inr (1, m1, ?a\<lparr>count := count ?a - 1\<rparr>) \<and>
         (\<forall>b. Some b \<noteq> block_of (Ptr 1 0) \<longrightarrow> blocks m1 ! b = blocks ?m ! b)"
    by (rule pop_dyn_array_result [where array = ?a and m = ?m and popped = "Ptr 1 0"
          and old = "[None]", THEN conjunct2, THEN conjunct2, rule_format])
      (intro conjI ne ok ld' nb)
  have p: "pop_dyn_array ?m ?a (Ptr 1 0) = Inr (1, ?m', ?a')" by (simp add: dyn_eval)
  from pop_dyn_array_result [where array = ?a and m = ?m and popped = "Ptr 1 0" and r = 1
      and m' = ?m' and array' = ?a', THEN conjunct2, THEN conjunct1, rule_format,
      OF conjI [OF ne p]]
  have e: "load ?m' (Ptr 1 0) 1 = element_at ?m ?a 1" by auto
  show ?thesis by (intro conjI ok ld p e z)
qed

lemma element_at_last:
  assumes "array_ok m a" "stored m a = Inr (st @ v)" "length v = unat (size_bytes a)"
    "unat (count a) = Suc k"
  shows "element_at m a (count a - 1) = Inr v"
proof -
  let ?s = "unat (size_bytes a)"
  have ne: "count a \<noteq> 0" using assms(4) by (auto simp: unat_gt_0 [symmetric])
  have ui: "unat (count a - 1) = k" using unat_dec64 [OF ne] assms(4) by simp
  have l: "length (st @ v) = ?s * Suc k" using stored_length [OF assms(1,2)] assms(4) by simp
  then have ls: "length st = ?s * k" using assms(3) by simp
  have "element_at m a (count a - 1) = Inr (take ?s (drop (?s * unat (count a - 1)) (st @ v)))"
    by (rule element_at_stored [OF assms(1,2)]) (use ui assms(4) in simp)
  then show ?thesis using ui ls assms(3) by simp
qed

text \<open>
  C6. A push followed at once by a pop into a buffer outside the storage leaves in the
  buffer exactly the bytes that were pushed, and the count of the array as it was before
  the push. The array is taken well formed, the value and the buffer to be \<open>size\<close>
  valid bytes outside the storage of the array, and, when the push has to grow the
  storage, the allocation to succeed and the doubled sizes to fit \<open>size_t\<close>; both
  calls then return.
\<close>

theorem push_pop_round_trip:
  assumes "array_ok m array"
      and "load m val (unat (size_bytes array)) = Inr v"
      and "block_of val \<noteq> block_of (items array)"
      and "load m popped (unat (size_bytes array)) = Inr old"
      and "block_of popped \<noteq> block_of (items array)"
      and "count array < cap array \<or>
           (grant_next (grants m) \<and> 2 * unat (cap array) * unat (size_bytes array) < 2 ^ 64 \<and>
            2 * unat (cap array) < 2 ^ 64)"
  shows "\<exists>m1 array1 m2 array2.
           push_dyn_array m array val = Inr (m1, array1) \<and>
           pop_dyn_array m1 array1 popped = Inr (1, m2, array2) \<and>
           load m2 popped (unat (size_bytes array)) = Inr v \<and>
           count array1 = count array + 1 \<and>
           count array2 = count array"
proof -
  let ?s = "unat (size_bytes array)"
  from push_ok [OF assms(1,2,3,6)]
  obtain m1 a1 st where p: "push_dyn_array m array val = Inr (m1, a1)" "array_ok m1 a1"
    "size_bytes a1 = size_bytes array" "count a1 = count array + 1"
    "unat (count a1) = Suc (unat (count array))"
    "items a1 = (if count array < cap array then items array else Ptr (length (blocks m)) 0)"
    "stored m1 a1 = Inr (st @ v)"
    "\<forall>b<length (blocks m). Some b \<noteq> block_of (items array) \<longrightarrow> blocks m1 ! b = blocks m ! b"
    "length (blocks m) \<le> length (blocks m1)"
    by blast
  from assms(4) obtain pb poff bs where pp: "popped = Ptr pb poff" "pb < length (blocks m)"
    "blocks m ! pb = Some bs" "poff + ?s \<le> length bs"
    by (auto simp: load_Inr_iff)
  have "blocks m1 ! pb = Some bs" using p(8) pp(1,2,3) assms(5) by (simp add: block_of_def)
  then have w1: "load m1 popped (unat (size_bytes a1)) = Inr (take ?s (drop poff bs))"
    unfolding pp(1) p(3) using pp(2,4) p(9) by (intro load_block) simp_all
  have nb1: "block_of popped \<noteq> block_of (items a1)"
    using p(6) assms(5) pp(1,2) by (simp add: block_of_def split: if_splits)
  have ne1: "count a1 \<noteq> 0" using p(5) by (auto simp: unat_gt_0 [symmetric])
  from pop_ok [OF p(2) ne1 w1 nb1]
  obtain m2 e where q: "pop_dyn_array m1 a1 popped = Inr (1, m2, a1\<lparr>count := count a1 - 1\<rparr>)"
    "element_at m1 a1 (count a1 - 1) = Inr e" "load m2 popped (unat (size_bytes a1)) = Inr e"
    by blast
  have lv: "length v = unat (size_bytes a1)" using load_length [OF assms(2)] p(3) by simp
  have "element_at m1 a1 (count a1 - 1) = Inr v" by (rule element_at_last [OF p(2,7) lv p(5)])
  then have "e = v" using q(2) by simp
  then show ?thesis using p(1,3,4) q(1,3) by simp
qed

text \<open>C6 on an array that is full, so that the push reallocates.\<close>

theorem push_pop_round_trip_witness:
  "array_ok \<lparr>blocks = [Some [Some 7, Some 9], Some [Some 11], Some [None]], grants = []\<rparr>
     \<lparr>items = Ptr 0 0, count = 2, cap = 2, size_bytes = 1\<rparr> \<and>
   push_dyn_array \<lparr>blocks = [Some [Some 7, Some 9], Some [Some 11], Some [None]], grants = []\<rparr>
     \<lparr>items = Ptr 0 0, count = 2, cap = 2, size_bytes = 1\<rparr> (Ptr 1 0) =
     Inr (\<lparr>blocks = [None, Some [Some 11], Some [None], Some [Some 7, Some 9, Some 11, None]],
            grants = []\<rparr>,
          \<lparr>items = Ptr 3 0, count = 3, cap = 4, size_bytes = 1\<rparr>) \<and>
   pop_dyn_array
     \<lparr>blocks = [None, Some [Some 11], Some [None], Some [Some 7, Some 9, Some 11, None]],
        grants = []\<rparr>
     \<lparr>items = Ptr 3 0, count = 3, cap = 4, size_bytes = 1\<rparr> (Ptr 2 0) =
     Inr (1, \<lparr>blocks = [None, Some [Some 11], Some [Some 11],
                         Some [Some 7, Some 9, Some 11, None]], grants = []\<rparr>,
          \<lparr>items = Ptr 3 0, count = 2, cap = 4, size_bytes = 1\<rparr>)"
proof -
  let ?m = "\<lparr>blocks = [Some [Some 7, Some 9], Some [Some 11], Some [None]], grants = []\<rparr>"
  let ?a = "\<lparr>items = Ptr 0 0, count = 2, cap = 2, size_bytes = 1\<rparr>"
  let ?m1 = "\<lparr>blocks = [None, Some [Some 11], Some [None], Some [Some 7, Some 9, Some 11, None]],
            grants = []\<rparr>"
  let ?a1 = "\<lparr>items = Ptr 3 0, count = 3, cap = 4, size_bytes = 1\<rparr>"
  have ok: "array_ok ?m ?a" by (simp add: array_ok_def word_le_nat_alt word_less_nat_alt)
  have v: "load ?m (Ptr 1 0) (unat (size_bytes ?a)) = Inr [Some 11]" by (simp add: load_def)
  have w: "load ?m (Ptr 2 0) (unat (size_bytes ?a)) = Inr [None]" by (simp add: load_def)
  have r: "count ?a < cap ?a \<or>
           (grant_next (grants ?m) \<and> 2 * unat (cap ?a) * unat (size_bytes ?a) < 2 ^ 64 \<and>
            2 * unat (cap ?a) < 2 ^ 64)"
    by (simp add: grant_next_def)
  have p: "push_dyn_array ?m ?a (Ptr 1 0) = Inr (?m1, ?a1)" by (simp add: dyn_eval)
  from push_pop_round_trip [OF ok v _ w _ r] p
  have "\<exists>m2 array2. pop_dyn_array ?m1 ?a1 (Ptr 2 0) = Inr (1, m2, array2) \<and>
          load m2 (Ptr 2 0) (unat (size_bytes ?a)) = Inr [Some 11] \<and> count array2 = count ?a"
    by (simp add: block_of_def)
  moreover have "pop_dyn_array ?m1 ?a1 (Ptr 2 0) =
     Inr (1, \<lparr>blocks = [None, Some [Some 11], Some [Some 11],
                         Some [Some 7, Some 9, Some 11, None]], grants = []\<rparr>,
          \<lparr>items = Ptr 3 0, count = 2, cap = 4, size_bytes = 1\<rparr>)"
    by (simp add: dyn_eval)
  ultimately show ?thesis using ok p by blast
qed

lemma array_ok_dyn_inv: "array_ok m a \<Longrightarrow> dyn_inv a"
  by (auto simp: array_ok_def dyn_inv_def split: byte_ptr.splits)

lemma memcpy_Null: "\<exists>e. memcpy m Null src n = Inl e"
  by (cases "load m src (unat n)") (simp_all add: memcpy_def overlap_def store_def)

lemma array_ok_shape:
  assumes ok: "array_ok m a"
    and sh: "length (blocks m') = length (blocks m)"
      "\<forall>b<length (blocks m). map_option length (blocks m' ! b) = map_option length (blocks m ! b)"
    and a': "items a' = items a" "cap a' = cap a" "size_bytes a' = size_bytes a"
      "unat (count a') \<le> unat (cap a)"
  shows "array_ok m' a'"
proof -
  from ok obtain b cs where bc: "items a = Ptr b 0" "b < length (blocks m)"
    "blocks m ! b = Some cs" "length cs = unat (cap a) * unat (size_bytes a)"
    "unat (cap a) * unat (size_bytes a) < 2 ^ 64" "0 < unat (cap a)"
    by (auto elim!: array_okE)
  from sh(2) bc(2,3) obtain cs' where cs': "blocks m' ! b = Some cs'" "length cs' = length cs"
    by (auto simp: map_option_case split: option.splits)
  show ?thesis
    by (rule array_okI [where b = b and cs = cs']) (use bc cs' sh(1) a' in simp_all)
qed

lemma unat_double_wraps:
  assumes "2 ^ 64 \<le> 2 * unat (x :: size_t)"
  shows "unat (x * 2) < unat x"
proof -
  have b: "unat x < 2 ^ 64" by (rule unat_bound64)
  have "unat (x * 2) = (unat x * 2) mod 2 ^ 64" by (simp add: unat_word_ariths)
  also have "\<dots> = unat x * 2 - 2 ^ 64"
    using assms b by (simp add: mod_if)
  also have "\<dots> < unat x" using b assms by simp
  finally show ?thesis .
qed

lemma push_Inr:
  assumes ok: "array_ok m a" and s0: "0 < unat (size_bytes a)"
    and p: "push_dyn_array m a val = Inr (m', a')"
  shows "array_ok m' a' \<and> unat (cap a) \<le> unat (cap a') \<and> size_bytes a' = size_bytes a"
proof -
  let ?s = "unat (size_bytes a)" and ?k = "unat (count a)" and ?c = "unat (cap a)"
  let ?N = "length (blocks m)"
  from ok obtain b cs where bc: "items a = Ptr b 0" "b < ?N"
    "blocks m ! b = Some cs" "length cs = ?c * ?s" "?c * ?s < 2 ^ 64" "0 < ?c" "?k \<le> ?c"
    by (auto elim!: array_okE)
  show ?thesis
  proof (cases "count a < cap a")
    case True
    then have k: "?k < ?c" by (simp add: word_less_nat_alt)
    have k': "unat (count a + 1) = Suc ?k" using unat_inc64 [OF True] by simp
    from p True obtain dest where
      cp: "memcpy m dest val (size_bytes a) = Inr m'" and a': "a' = a\<lparr>count := count a + 1\<rparr>"
      by (auto simp: push_dyn_array_def not_le [symmetric] split: sum.splits)
    from memcpy_shape [OF cp]
    have "array_ok m' a'"
      by (intro array_ok_shape [OF ok]) (use a' k k' in simp_all)
    then show ?thesis using a' by simp
  next
    case False
    then have ge: "cap a \<le> count a" by simp
    have k: "?k = ?c" using ge bc(7) by (simp add: word_le_nat_alt)
    have off: "unat (size_bytes a * count a) = ?c * ?s"
      using unat_offset [OF bc(7,5)] k by (simp add: mult.commute)
    from p ge obtain m3 a3 where gr: "grow_dyn_array m a = Inr (m3, a3)"
      by (auto simp: push_dyn_array_def split: sum.splits)
    have g: "grant_next (grants m)"
    proof (rule ccontr)
      assume "\<not> grant_next (grants m)"
      then have "malloc m (cap a * 2 * size_bytes a) = (Null, m\<lparr>grants := tl (grants m)\<rparr>)"
        by (simp add: malloc_def)
      moreover obtain e where
        "memcpy (m\<lparr>grants := tl (grants m)\<rparr>) Null (items a) (size_bytes a * count a) = Inl e"
        using memcpy_Null by blast
      ultimately have "grow_dyn_array m a = Inl e" by (simp add: grow_dyn_array_def Let_def)
      then show False using gr by simp
    qed
    have fit: "2 * ?c * ?s < 2 ^ 64"
    proof (rule ccontr)
      assume "\<not> 2 * ?c * ?s < 2 ^ 64"
      then have big: "2 ^ 64 \<le> 2 * unat (cap a * size_bytes a)"
        using unat_mult64 [OF bc(5)] by simp
      have e: "cap a * 2 * size_bytes a = cap a * size_bytes a * 2" by (simp add: ac_simps)
      have L: "unat (cap a * 2 * size_bytes a) < ?c * ?s"
        unfolding e using unat_double_wraps [OF big] unat_mult64 [OF bc(5)] by simp
      let ?L = "unat (cap a * 2 * size_bytes a)"
      let ?m1 = "m\<lparr>blocks := blocks m @ [Some (replicate ?L None)], grants := tl (grants m)\<rparr>"
      have mal: "malloc m (cap a * 2 * size_bytes a) = (Ptr ?N 0, ?m1)"
        using g by (simp add: malloc_def)
      have ld: "load ?m1 (Ptr b 0) (unat (size_bytes a * count a)) = Inr cs"
        using bc(2,3,4) off by (simp add: load_def nth_append)
      have "store ?m1 (Ptr ?N 0) cs = Inl OutOfBounds"
        using L bc(4) by (simp add: store_def)
      then have "memcpy ?m1 (Ptr ?N 0) (Ptr b 0) (size_bytes a * count a) = Inl OutOfBounds"
        using ld bc(2) by (simp add: memcpy_def overlap_def)
      then have "grow_dyn_array m a = Inl OutOfBounds"
        using mal bc(1) by (simp add: grow_dyn_array_def Let_def)
      then show False using gr by simp
    qed
    have "2 * ?c \<le> 2 * ?c * ?s" using s0 by (cases ?s) simp_all
    then have fit': "2 * ?c < 2 ^ 64" using fit by (rule le_less_trans)
    let ?m3 = "m\<lparr>blocks := (blocks m)[b := None] @
              [Some (cs @ replicate (?c * ?s) None)], grants := tl (grants m)\<rparr>"
    let ?a3 = "a\<lparr>cap := cap a * 2, items := Ptr ?N 0\<rparr>"
    have gr': "grow_dyn_array m a = Inr (?m3, ?a3)"
      by (rule grow_ok [OF ok ge bc(1,3) g fit fit'])
    have c2: "unat (cap a * 2) = 2 * ?c" by (rule unat_double64 [OF fit'])
    have "unat (count a) + unat (1 :: size_t) < 2 ^ 64" using k fit' bc(6) by simp
    then have k': "unat (count a + 1) = Suc ?k" using unat_add64 [of "count a" 1] by simp
    have ok3: "array_ok ?m3 ?a3"
      by (rule array_okI [where b = ?N and cs = "cs @ replicate (?c * ?s) None"])
        (use bc(4,6) c2 k fit in \<open>simp_all add: nth_append\<close>)
    from p ge gr' obtain dest where
      cp: "memcpy ?m3 dest val (size_bytes a) = Inr m'" and a': "a' = ?a3\<lparr>count := count a + 1\<rparr>"
      by (auto simp: push_dyn_array_def split: sum.splits)
    from memcpy_shape [OF cp]
    have "array_ok m' a'"
      by (intro array_ok_shape [OF ok3]) (use a' k k' c2 bc(6) in simp_all)
    then show ?thesis using a' c2 by simp
  qed
qed

lemma pop_Inr:
  assumes p: "pop_dyn_array m a popped = Inr (r, m', a')"
  shows "cap a' = cap a \<and> items a' = items a \<and> size_bytes a' = size_bytes a \<and>
         (dyn_inv a \<longrightarrow> dyn_inv a') \<and> (array_ok m a \<longrightarrow> array_ok m' a') \<and>
         (r = 0 \<or> r = 1) \<and> (r = 0 \<longleftrightarrow> count a = 0)"
proof (cases "count a = 0")
  case True
  then show ?thesis using p by (simp add: pop_dyn_array_def)
next
  case False
  from p False obtain src where
    cp: "memcpy m popped src (size_bytes a) = Inr m'" and a': "a' = a\<lparr>count := count a - 1\<rparr>"
    and r: "r = 1"
    by (auto simp: pop_dyn_array_def Let_def split: sum.splits)
  have le: "unat (count a - 1) \<le> unat (count a)" using unat_dec64 [OF False] by simp
  have "dyn_inv a \<longrightarrow> dyn_inv a'"
    using a' le by (auto simp: dyn_inv_def word_le_nat_alt)
  moreover have "array_ok m a \<longrightarrow> array_ok m' a'"
  proof
    assume ok: "array_ok m a"
    then have "unat (count a) \<le> unat (cap a)" by (auto elim!: array_okE)
    with memcpy_shape [OF cp] show "array_ok m' a'"
      by (intro array_ok_shape [OF ok]) (use a' le in simp_all)
  qed
  ultimately show ?thesis using a' r False by simp
qed

text \<open>
  C8, amended. \<open>new_dyn_array\<close>, when both of its allocations succeed, returns an
  array of capacity 2 that satisfies the invariants (count at most capacity, storage
  not null), and a well-formed one when twice the element size fits \<open>size_t\<close>.
  \<open>push_dyn_array\<close>, on a well-formed array of a positive element size, whenever it
  returns, returns a well-formed array that satisfies the invariants and whose capacity
  is not smaller. \<open>pop_dyn_array\<close>, whenever it returns, preserves the invariants, the
  well-formedness and the capacity.
\<close>

theorem dyn_inv_preserved:
  "(grant_next (grants m) \<and> grant_next (tl (grants m)) \<longrightarrow>
      (\<exists>m1 a. new_dyn_array m n = Inr (m1, a) \<and> dyn_inv a \<and> cap a = 2 \<and>
         (2 * unat n < 2 ^ 64 \<longrightarrow> array_ok m1 a))) \<and>
   (array_ok m array \<and> 0 < size_bytes array \<and>
    push_dyn_array m array val = Inr (m', array') \<longrightarrow>
      dyn_inv array' \<and> array_ok m' array' \<and> cap array \<le> cap array') \<and>
   (dyn_inv array \<and> pop_dyn_array m array popped = Inr (r, m', array') \<longrightarrow>
      dyn_inv array' \<and> cap array' = cap array \<and> (array_ok m array \<longrightarrow> array_ok m' array'))"
proof (intro conjI impI)
  assume g: "grant_next (grants m) \<and> grant_next (tl (grants m))"
  then have e: "new_dyn_array m n =
     Inr (m\<lparr>blocks := blocks m @ [Some (replicate 32 None), Some (replicate (unat (n * 2)) None)],
            grants := tl (tl (grants m))\<rparr>,
          \<lparr>items = Ptr (Suc (length (blocks m))) 0, count = 0, cap = 2, size_bytes = n\<rparr>)"
    by (intro new_dyn_array_granted) simp_all
  have "dyn_inv \<lparr>items = Ptr (Suc (length (blocks m))) 0, count = 0, cap = 2, size_bytes = n\<rparr>"
    by (simp add: dyn_inv_def)
  moreover have "2 * unat n < 2 ^ 64 \<longrightarrow>
      array_ok (m\<lparr>blocks := blocks m @ [Some (replicate 32 None), Some (replicate (unat (n * 2)) None)],
            grants := tl (tl (grants m))\<rparr>)
        \<lparr>items = Ptr (Suc (length (blocks m))) 0, count = 0, cap = 2, size_bytes = n\<rparr>"
    using new_dyn_array_ok [of m n] g e by auto
  ultimately show "\<exists>m1 a. new_dyn_array m n = Inr (m1, a) \<and> dyn_inv a \<and> cap a = 2 \<and>
         (2 * unat n < 2 ^ 64 \<longrightarrow> array_ok m1 a)"
    using e by simp
next
  assume a: "array_ok m array \<and> 0 < size_bytes array \<and>
    push_dyn_array m array val = Inr (m', array')"
  then have s0: "0 < unat (size_bytes array)" by (simp add: word_less_nat_alt)
  from a push_Inr [OF _ s0, of m val m' array']
  have r: "array_ok m' array'" "unat (cap array) \<le> unat (cap array')" by simp_all
  show "dyn_inv array'" using r(1) by (rule array_ok_dyn_inv)
  show "array_ok m' array'" by (rule r(1))
  show "cap array \<le> cap array'" using r(2) by (simp add: word_le_nat_alt)
next
  assume a: "dyn_inv array \<and> pop_dyn_array m array popped = Inr (r, m', array')"
  then have p: "pop_dyn_array m array popped = Inr (r, m', array')" by simp
  from pop_Inr [OF p] a show "dyn_inv array'" by simp
  from pop_Inr [OF p] show "cap array' = cap array" by simp
  assume "array_ok m array"
  with pop_Inr [OF p] show "array_ok m' array'" by simp
qed

text \<open>
  C8 on the creation of an array of one-byte elements, on a push to it and on the pop
  that follows.
\<close>

theorem dyn_inv_preserved_witness:
  "new_dyn_array \<lparr>blocks = [], grants = [True, True]\<rparr> 1 =
     Inr (\<lparr>blocks = [Some (replicate 32 None), Some [None, None]], grants = []\<rparr>,
          \<lparr>items = Ptr 1 0, count = 0, cap = 2, size_bytes = 1\<rparr>) \<and>
   dyn_inv \<lparr>items = Ptr 1 0, count = 0, cap = 2, size_bytes = 1\<rparr> \<and>
   array_ok \<lparr>blocks = [Some (replicate 32 None), Some [None, None], Some [Some 7]], grants = []\<rparr>
     \<lparr>items = Ptr 1 0, count = 0, cap = 2, size_bytes = 1\<rparr> \<and>
   push_dyn_array
     \<lparr>blocks = [Some (replicate 32 None), Some [None, None], Some [Some 7]], grants = []\<rparr>
     \<lparr>items = Ptr 1 0, count = 0, cap = 2, size_bytes = 1\<rparr> (Ptr 2 0) =
     Inr (\<lparr>blocks = [Some (replicate 32 None), Some [Some 7, None], Some [Some 7]], grants = []\<rparr>,
          \<lparr>items = Ptr 1 0, count = 1, cap = 2, size_bytes = 1\<rparr>) \<and>
   dyn_inv \<lparr>items = Ptr 1 0, count = 1, cap = 2, size_bytes = 1\<rparr> \<and>
   pop_dyn_array
     \<lparr>blocks = [Some (replicate 32 None), Some [Some 7, None], Some [Some 7]], grants = []\<rparr>
     \<lparr>items = Ptr 1 0, count = 1, cap = 2, size_bytes = 1\<rparr> (Ptr 2 0) =
     Inr (1, \<lparr>blocks = [Some (replicate 32 None), Some [Some 7, None], Some [Some 7]], grants = []\<rparr>,
          \<lparr>items = Ptr 1 0, count = 0, cap = 2, size_bytes = 1\<rparr>)"
proof -
  let ?mc = "\<lparr>blocks = [], grants = [True, True]\<rparr>"
  let ?m = "\<lparr>blocks = [Some (replicate 32 None), Some [None, None], Some [Some 7]], grants = []\<rparr>"
  let ?a = "\<lparr>items = Ptr 1 0, count = 0, cap = 2, size_bytes = 1\<rparr>"
  let ?m1 = "\<lparr>blocks = [Some (replicate 32 None), Some [Some 7, None], Some [Some 7]], grants = []\<rparr>"
  let ?a1 = "\<lparr>items = Ptr 1 0, count = 1, cap = 2, size_bytes = 1\<rparr>"
  have c: "new_dyn_array ?mc 1 =
     Inr (\<lparr>blocks = [Some (replicate 32 None), Some [None, None]], grants = []\<rparr>, ?a)"
    by (simp add: dyn_eval)
  have g: "grant_next (grants ?mc) \<and> grant_next (tl (grants ?mc))" by (simp add: grant_next_def)
  from dyn_inv_preserved [where m = ?mc and n = 1, THEN conjunct1, rule_format, OF g] c
  have i0: "dyn_inv ?a" by simp
  have ok: "array_ok ?m ?a" by (simp add: array_ok_def word_le_nat_alt word_less_nat_alt)
  have p: "push_dyn_array ?m ?a (Ptr 2 0) = Inr (?m1, ?a1)" by (simp add: dyn_eval)
  have s: "0 < size_bytes ?a" by (simp add: word_less_nat_alt)
  from dyn_inv_preserved [where m = ?m and array = ?a and val = "Ptr 2 0" and m' = ?m1
      and array' = ?a1, THEN conjunct2, THEN conjunct1,
      rule_format, OF conjI [OF ok conjI [OF s p]]]
  have i1: "dyn_inv ?a1" by simp
  have q: "pop_dyn_array ?m1 ?a1 (Ptr 2 0) = Inr (1, ?m1, ?a)" by (simp add: dyn_eval)
  from dyn_inv_preserved [where m = ?m1 and array = ?a1 and popped = "Ptr 2 0" and m' = ?m1
      and array' = ?a and r = 1, THEN conjunct2, THEN conjunct2,
      rule_format, OF conjI [OF i1 q]]
  have "dyn_inv ?a" by simp
  then show ?thesis using c ok p i1 q by blast
qed

text \<open>
  C8 as stated fails on \<open>new_dyn_array\<close> when the allocation of the storage fails:
  the result of \<open>malloc\<close> is not checked, and the array is returned with capacity 2 and
  null storage.
\<close>

theorem new_dyn_array_null_storage_counterexample:
  "new_dyn_array \<lparr>blocks = [], grants = [True, False]\<rparr> 52 =
     Inr (\<lparr>blocks = [Some (replicate 32 None)], grants = []\<rparr>,
          \<lparr>items = Null, count = 0, cap = 2, size_bytes = 52\<rparr>) \<and>
   \<not> dyn_inv \<lparr>items = Null, count = 0, cap = 2, size_bytes = 52\<rparr>"
  by (simp add: dyn_eval dyn_inv_def)

lemma push_Null_items:
  assumes "items a = Null"
  shows "\<exists>e. push_dyn_array m a val = Inl e"
proof (cases "cap a \<le> count a")
  case True
  obtain p m1 where mal: "malloc m (cap a * 2 * size_bytes a) = (p, m1)" by (cases "malloc m (cap a * 2 * size_bytes a)")
  have "memcpy m1 p Null (size_bytes a * count a) = Inl NullDeref"
    by (simp add: memcpy_def load_def)
  then have "grow_dyn_array m a = Inl NullDeref"
    using mal assms by (simp add: grow_dyn_array_def Let_def)
  then show ?thesis using True by (simp add: push_dyn_array_def)
next
  case False
  obtain e where "memcpy m Null val (size_bytes a) = Inl e" using memcpy_Null by blast
  then show ?thesis using False assms by (simp add: push_dyn_array_def ptr_add_def)
qed

lemma push_Inr_grant:
  assumes "cap a \<le> count a" "push_dyn_array m a val = Inr r"
  shows "grant_next (grants m)"
proof (rule ccontr)
  assume "\<not> grant_next (grants m)"
  then have "malloc m (cap a * 2 * size_bytes a) = (Null, m\<lparr>grants := tl (grants m)\<rparr>)"
    by (simp add: malloc_def)
  moreover obtain e where
    "memcpy (m\<lparr>grants := tl (grants m)\<rparr>) Null (items a) (size_bytes a * count a) = Inl e"
    using memcpy_Null by blast
  ultimately have "grow_dyn_array m a = Inl e" by (simp add: grow_dyn_array_def Let_def)
  then show False using assms by (simp add: push_dyn_array_def)
qed

lemma new_dyn_array_Inr:
  assumes "new_dyn_array m n = Inr (m1, a)"
  shows "count a = 0 \<and> cap a = 2 \<and> size_bytes a = n \<and> grant_next (grants m) \<and>
         (items a \<noteq> Null \<longrightarrow> grant_next (tl (grants m)))"
  using assms
  by (auto simp: new_dyn_array_def malloc_def Let_def split: if_splits prod.splits)

lemma push_values_Inr:
  assumes "array_ok m a" "stored m a = Inr (concat xs)" "unat (count a) = length xs"
    and "\<forall>v\<in>set vs. length v = unat (size_bytes a)"
    and "2 * (length xs + length vs) * unat (size_bytes a) < 2 ^ 64"
    and "2 * (length xs + length vs) < 2 ^ 64"
    and "push_values m a vs = Inr (m', a')"
  shows "array_ok m' a' \<and> size_bytes a' = size_bytes a \<and>
         stored m' a' = Inr (concat (xs @ vs)) \<and> unat (count a') = length xs + length vs"
  using assms
proof (induction vs arbitrary: m a xs)
  case Nil
  then show ?case by simp
next
  case (Cons v vs)
  let ?s = "unat (size_bytes a)"
  let ?N = "length (blocks m)"
  let ?m1 = "m\<lparr>blocks := blocks m @ [Some v]\<rparr>"
  from Cons.prems(7) obtain m2 a2 where
    p: "push_dyn_array ?m1 a (Ptr ?N 0) = Inr (m2, a2)" and
    rest: "push_values m2 a2 vs = Inr (m', a')"
    by (auto simp: local_var_def split: sum.splits)
  have lv: "length v = ?s" using Cons.prems(4) by simp
  have ok1: "array_ok ?m1 a" by (rule array_ok_local [OF Cons.prems(1)])
  have st1: "stored ?m1 a = Inr (concat xs)" using stored_local [OF Cons.prems(1)] Cons.prems(2) by simp
  have ld: "load ?m1 (Ptr ?N 0) ?s = Inr v" using lv by (simp add: load_def)
  from Cons.prems(1) obtain b where b: "items a = Ptr b 0" "b < ?N" "unat (count a) \<le> unat (cap a)"
    by (auto elim!: array_okE)
  have nb: "block_of (Ptr ?N 0) \<noteq> block_of (items a)" using b by (simp add: block_of_def)
  have room: "count a < cap a \<or>
       (grant_next (grants ?m1) \<and> 2 * unat (cap a) * ?s < 2 ^ 64 \<and> 2 * unat (cap a) < 2 ^ 64)"
  proof (cases "count a < cap a")
    case True
    then show ?thesis by simp
  next
    case False
    then have ge: "cap a \<le> count a" by simp
    have "unat (cap a) = length xs" using False b(3) Cons.prems(3) by (simp add: word_less_nat_alt)
    moreover have "2 * length xs * ?s \<le> 2 * (length xs + length (v # vs)) * ?s"
      by (intro mult_le_mono) simp_all
    ultimately show ?thesis
      using Cons.prems(5,6) push_Inr_grant [OF ge p] by simp
  qed
  from push_ok [OF ok1 ld nb room] p
  obtain st where q: "array_ok m2 a2" "size_bytes a2 = size_bytes a"
    "unat (count a2) = Suc (unat (count a))" "stored ?m1 a = Inr st" "stored m2 a2 = Inr (st @ v)"
    by auto
  have st2: "stored m2 a2 = Inr (concat (xs @ [v]))" using q(4,5) st1 by simp
  have "array_ok m' a' \<and> size_bytes a' = size_bytes a2 \<and>
         stored m' a' = Inr (concat ((xs @ [v]) @ vs)) \<and>
         unat (count a') = length (xs @ [v]) + length vs"
    by (rule Cons.IH [OF q(1) st2 _ _ _ _ rest])
      (use q(2,3) Cons.prems(3,4,5,6) in simp_all)
  then show ?case using q(2) by simp
qed

lemma elements_of_stored:
  assumes "array_ok m a" "stored m a = Inr (concat vs)"
    and "\<forall>v\<in>set vs. length v = unat (size_bytes a)" "unat (count a) = length vs"
    and "i < length vs"
  shows "element_at m a (of_nat i) = Inr (vs ! i)"
proof -
  have "i < 2 ^ 64" using assms(4,5) unat_bound64 [of "count a"] by simp
  then have u: "unat (of_nat i :: size_t) = i" by (rule unat_of_nat64)
  have "element_at m a (of_nat i) =
      Inr (take (unat (size_bytes a)) (drop (unat (size_bytes a) * unat (of_nat i :: size_t)) (concat vs)))"
    by (rule element_at_stored [OF assms(1,2)]) (use u assms(4,5) in simp)
  then show ?thesis using concat_chunk [OF assms(3,5)] u by simp
qed

lemma create_and_push_Inr:
  assumes fit: "sizes_fit n (length vs)" and lens: "\<forall>v\<in>set vs. length v = unat n"
    and r: "create_and_push m n vs = Inr (m', a')"
  shows "unat (count a') = length vs \<and>
         (\<forall>i<length vs. element_at m' a' (of_nat i) = Inr (vs ! i)) \<and>
         (vs \<noteq> [] \<longrightarrow> array_ok m' a')"
proof -
  from r obtain m1 a where c: "new_dyn_array m n = Inr (m1, a)"
    and pv: "push_values m1 a vs = Inr (m', a')"
    by (auto simp: create_and_push_def split: sum.splits)
  note n = new_dyn_array_Inr [OF c]
  show ?thesis
  proof (cases vs)
    case Nil
    then show ?thesis using pv n by simp
  next
    case (Cons v vs')
    from pv obtain val m0 r0 where "push_dyn_array m0 a val = Inr r0"
      unfolding Cons by (auto simp: local_var_def split: sum.splits)
    then have "items a \<noteq> Null" using push_Null_items [of a m0 val] by auto
    then have g: "grant_next (grants m)" "grant_next (tl (grants m))" using n by simp_all
    note f = sizes_fitD [OF fit]
    from new_dyn_array_ok [OF g f(1), of ] c
    have ok: "array_ok m1 a" and st: "stored m1 a = Inr []" by auto
    have "array_ok m' a' \<and> size_bytes a' = size_bytes a \<and>
         stored m' a' = Inr (concat ([] @ vs)) \<and>
         unat (count a') = length ([] :: cell list list) + length vs"
      by (rule push_values_Inr [OF ok _ _ _ _ _ pv]) (use st n lens f in simp_all)
    then have q: "array_ok m' a'" "size_bytes a' = n" "stored m' a' = Inr (concat vs)"
      "unat (count a') = length vs"
      using n by simp_all
    have "\<forall>i<length vs. element_at m' a' (of_nat i) = Inr (vs ! i)"
      using elements_of_stored [OF q(1,3) _ q(4)] lens q(2) by simp
    then show ?thesis using q(1,4) by simp
  qed
qed

lemma create_and_push_granted:
  assumes "grant_all (grants m)" "sizes_fit n (length vs)" "\<forall>v\<in>set vs. length v = unat n"
  shows "\<exists>m' a'. create_and_push m n vs = Inr (m', a')"
  using create_push_values [OF assms] by (auto simp: create_and_push_def)

text \<open>
  C1. After \<open>new_dyn_array\<close> with the element size \<open>n\<close> and a sequence of pushes
  of values of \<open>n\<close> bytes, whenever the calls have returned, the count is the number of
  pushes, and for each \<open>i\<close> below it the element at index \<open>i\<close> is exactly the bytes
  passed to the push number \<open>i\<close>: the data survives every reallocation. The calls do
  return when the allocations succeed. The sizes are taken to fit \<open>size_t\<close>.
\<close>

theorem push_sequence_contents:
  assumes "sizes_fit n (length vs)"
      and "\<forall>v\<in>set vs. length v = unat n"
  shows "(grant_all (grants m) \<longrightarrow> (\<exists>m' array'. create_and_push m n vs = Inr (m', array'))) \<and>
         (\<forall>m' array'. create_and_push m n vs = Inr (m', array') \<longrightarrow>
            unat (count array') = length vs \<and>
            (\<forall>i<length vs. element_at m' array' (of_nat i) = Inr (vs ! i)))"
  using create_and_push_granted [OF _ assms, of m] create_and_push_Inr [OF assms, of m]
  by blast

text \<open>C1 on three pushes of one byte each, the third of which reallocates.\<close>

theorem push_sequence_contents_witness:
  "sizes_fit 1 3 \<and> grant_all (grants \<lparr>blocks = [], grants = []\<rparr>) \<and>
   create_and_push \<lparr>blocks = [], grants = []\<rparr> 1 [ [Some 7], [Some 9], [Some 11] ] =
     Inr (\<lparr>blocks = [Some (replicate 32 None), None, Some [Some 7], Some [Some 9], Some [Some 11],
                     Some [Some 7, Some 9, Some 11, None]], grants = []\<rparr>,
          \<lparr>items = Ptr 5 0, count = 3, cap = 4, size_bytes = 1\<rparr>) \<and>
   element_at \<lparr>blocks = [Some (replicate 32 None), None, Some [Some 7], Some [Some 9], Some [Some 11],
                     Some [Some 7, Some 9, Some 11, None]], grants = []\<rparr>
       \<lparr>items = Ptr 5 0, count = 3, cap = 4, size_bytes = 1\<rparr> (of_nat 2) = Inr [Some 11]"
proof -
  let ?m = "\<lparr>blocks = [], grants = []\<rparr>"
  let ?vs = "[ [Some 7], [Some 9], [Some (11 :: 8 word)] ]"
  let ?m' = "\<lparr>blocks = [Some (replicate 32 None), None, Some [Some 7], Some [Some 9], Some [Some 11],
                     Some [Some 7, Some 9, Some 11, None]], grants = []\<rparr>"
  let ?a' = "\<lparr>items = Ptr 5 0, count = 3, cap = 4, size_bytes = 1\<rparr>"
  have g: "grant_all (grants ?m)" by (simp add: grant_all_def)
  have f3: "sizes_fit 1 3" by (simp add: sizes_fit_def)
  have f: "sizes_fit 1 (length ?vs)" by (simp add: sizes_fit_def)
  have l: "\<forall>v\<in>set ?vs. length v = unat (1 :: size_t)" by simp
  have c: "create_and_push ?m 1 ?vs = Inr (?m', ?a')"
    by (simp add: create_and_push_def dyn_eval)
  from push_sequence_contents [OF f l, of ?m, THEN conjunct2, rule_format, OF c]
  have "\<forall>i<length ?vs. element_at ?m' ?a' (of_nat i) = Inr (?vs ! i)" by simp
  from this [rule_format, of 2] have e: "element_at ?m' ?a' (of_nat 2) = Inr [Some 11]" by simp
  show ?thesis by (intro conjI f3 g c e)
qed

lemma element_at_kept:
  assumes ok: "array_ok m a" and st: "stored m a = Inr st"
    and ok': "array_ok m' a'" and st': "stored m' a' = Inr (st @ v)"
    and sz: "size_bytes a' = size_bytes a" and c': "unat (count a') = Suc (unat (count a))"
    and i: "unat i < unat (count a)"
  shows "element_at m' a' i = element_at m a i"
proof -
  let ?s = "unat (size_bytes a)"
  have l: "length st = ?s * unat (count a)" by (rule stored_length [OF ok st])
  have le: "?s * unat i + ?s \<le> length st"
    using slot_bound [OF i, of ?s] l by (simp add: mult.commute)
  have "element_at m' a' i = Inr (take ?s (drop (?s * unat i) (st @ v)))"
    using element_at_stored [OF ok' st', of i] i c' sz by simp
  moreover have "element_at m a i = Inr (take ?s (drop (?s * unat i) st))"
    by (rule element_at_stored [OF ok st i])
  moreover have "take ?s (drop (?s * unat i) (st @ v)) = take ?s (drop (?s * unat i) st)"
    using le by simp
  ultimately show ?thesis by simp
qed

text \<open>
  C2. On a well-formed array whose count equals its capacity, \<open>push_dyn_array\<close>
  doubles the capacity and moves the storage to a new block of the doubled size, which
  holds the bytes of all existing elements unchanged, followed by the new value at the
  index of the old count; the count is one more, and the old block is released after
  the copy. The allocation is taken to succeed, the doubled sizes to fit \<open>size_t\<close>,
  and the value to be \<open>size\<close> valid bytes outside the old storage. Consequently, after
  \<open>new_dyn_array\<close>, which starts at capacity 2, and \<open>2 * k + 1\<close> pushes, whenever
  the calls have returned, the capacity is at least \<open>2 * k + 1\<close> and every element is
  the value that was pushed; the calls do return when the allocations succeed.
\<close>

theorem push_at_capacity_grows:
  "(array_ok m array \<and> count array = cap array \<and> grant_next (grants m) \<and>
    2 * unat (cap array) * unat (size_bytes array) < 2 ^ 64 \<and> 2 * unat (cap array) < 2 ^ 64 \<and>
    load m val (unat (size_bytes array)) = Inr v \<and> block_of val \<noteq> block_of (items array) \<longrightarrow>
      (\<exists>m' array' st.
         push_dyn_array m array val = Inr (m', array') \<and>
         cap array' = cap array * 2 \<and> unat (cap array') = 2 * unat (cap array) \<and>
         items array' = Ptr (length (blocks m)) 0 \<and> array_ok m' array' \<and>
         stored m array = Inr st \<and> stored m' array' = Inr (st @ v) \<and>
         (\<forall>i. i < count array \<longrightarrow> element_at m' array' i = element_at m array i) \<and>
         element_at m' array' (count array) = Inr v \<and>
         count array' = count array + 1 \<and>
         load m' (items array) 0 = Inl UseAfterFree)) \<and>
   (sizes_fit n (2 * k + 1) \<and> length vs = 2 * k + 1 \<and>
    (\<forall>v\<in>set vs. length v = unat n) \<longrightarrow>
      (\<forall>m1 array1. new_dyn_array m n = Inr (m1, array1) \<longrightarrow> cap array1 = 2) \<and>
      (grant_all (grants m) \<longrightarrow> (\<exists>m2 array2. create_and_push m n vs = Inr (m2, array2))) \<and>
      (\<forall>m2 array2. create_and_push m n vs = Inr (m2, array2) \<longrightarrow>
         2 * k + 1 \<le> unat (cap array2) \<and>
         (\<forall>i<2 * k + 1. element_at m2 array2 (of_nat i) = Inr (vs ! i))))"
proof (rule conjI; rule impI)
  assume a: "array_ok m array \<and> count array = cap array \<and> grant_next (grants m) \<and>
    2 * unat (cap array) * unat (size_bytes array) < 2 ^ 64 \<and> 2 * unat (cap array) < 2 ^ 64 \<and>
    load m val (unat (size_bytes array)) = Inr v \<and> block_of val \<noteq> block_of (items array)"
  then have ok: "array_ok m array" and eq: "count array = cap array"
    and ld: "load m val (unat (size_bytes array)) = Inr v"
    and nb: "block_of val \<noteq> block_of (items array)"
    and room: "count array < cap array \<or>
       (grant_next (grants m) \<and> 2 * unat (cap array) * unat (size_bytes array) < 2 ^ 64 \<and>
        2 * unat (cap array) < 2 ^ 64)"
    by simp_all
  from push_ok [OF ok ld nb room] eq
  obtain m' a' st where p: "push_dyn_array m array val = Inr (m', a')" "array_ok m' a'"
    "size_bytes a' = size_bytes array" "count a' = count array + 1"
    "unat (count a') = Suc (unat (count array))" "cap a' = cap array * 2"
    "items a' = Ptr (length (blocks m)) 0" "stored m array = Inr st"
    "stored m' a' = Inr (st @ v)" "load m' (items array) 0 = Inl UseAfterFree"
    by auto
  have c2: "unat (cap a') = 2 * unat (cap array)" using p(6) a by (simp add: unat_double64)
  have kept: "\<forall>i. i < count array \<longrightarrow> element_at m' a' i = element_at m array i"
    using element_at_kept [OF ok p(8,2,9,3,5)] by (simp add: word_less_nat_alt)
  have lv: "length v = unat (size_bytes a')" using load_length [OF ld] p(3) by simp
  have "element_at m' a' (count a' - 1) = Inr v" by (rule element_at_last [OF p(2,9) lv p(5)])
  then have new: "element_at m' a' (count array) = Inr v" using p(4) by simp
  show "\<exists>m' array' st.
         push_dyn_array m array val = Inr (m', array') \<and>
         cap array' = cap array * 2 \<and> unat (cap array') = 2 * unat (cap array) \<and>
         items array' = Ptr (length (blocks m)) 0 \<and> array_ok m' array' \<and>
         stored m array = Inr st \<and> stored m' array' = Inr (st @ v) \<and>
         (\<forall>i. i < count array \<longrightarrow> element_at m' array' i = element_at m array i) \<and>
         element_at m' array' (count array) = Inr v \<and>
         count array' = count array + 1 \<and>
         load m' (items array) 0 = Inl UseAfterFree"
    using p c2 kept new by blast
next
  assume a: "sizes_fit n (2 * k + 1) \<and> length vs = 2 * k + 1 \<and>
    (\<forall>v\<in>set vs. length v = unat n)"
  then have f: "sizes_fit n (length vs)"
    and l: "length vs = 2 * k + 1" and b: "\<forall>v\<in>set vs. length v = unat n"
    by simp_all
  have ne: "vs \<noteq> []" using l by auto
  have A: "\<forall>m1 array1. new_dyn_array m n = Inr (m1, array1) \<longrightarrow> cap array1 = 2"
    using new_dyn_array_Inr by blast
  have B: "grant_all (grants m) \<longrightarrow> (\<exists>m2 array2. create_and_push m n vs = Inr (m2, array2))"
    using create_and_push_granted [OF _ f b] by blast
  have C: "\<forall>m2 array2. create_and_push m n vs = Inr (m2, array2) \<longrightarrow>
         2 * k + 1 \<le> unat (cap array2) \<and>
         (\<forall>i<2 * k + 1. element_at m2 array2 (of_nat i) = Inr (vs ! i))"
  proof (intro allI impI)
    fix m2 array2
    assume r: "create_and_push m n vs = Inr (m2, array2)"
    from create_and_push_Inr [OF f b r] ne
    have q: "unat (count array2) = length vs"
      "\<forall>i<length vs. element_at m2 array2 (of_nat i) = Inr (vs ! i)" "array_ok m2 array2"
      by simp_all
    have "unat (count array2) \<le> unat (cap array2)" using q(3) by (auto elim!: array_okE)
    then show "2 * k + 1 \<le> unat (cap array2) \<and>
         (\<forall>i<2 * k + 1. element_at m2 array2 (of_nat i) = Inr (vs ! i))"
      using q(1,2) l by simp
  qed
  show "(\<forall>m1 array1. new_dyn_array m n = Inr (m1, array1) \<longrightarrow> cap array1 = 2) \<and>
      (grant_all (grants m) \<longrightarrow> (\<exists>m2 array2. create_and_push m n vs = Inr (m2, array2))) \<and>
      (\<forall>m2 array2. create_and_push m n vs = Inr (m2, array2) \<longrightarrow>
         2 * k + 1 \<le> unat (cap array2) \<and>
         (\<forall>i<2 * k + 1. element_at m2 array2 (of_nat i) = Inr (vs ! i)))"
    using A B C by blast
qed

text \<open>
  C2 on a full array of two one-byte elements, and on three pushes (\<open>k = 1\<close>) after
  \<open>new_dyn_array\<close>.
\<close>

theorem push_at_capacity_grows_witness:
  "array_ok \<lparr>blocks = [Some [Some 7, Some 9], Some [Some 11]], grants = []\<rparr>
     \<lparr>items = Ptr 0 0, count = 2, cap = 2, size_bytes = 1\<rparr> \<and>
   push_dyn_array \<lparr>blocks = [Some [Some 7, Some 9], Some [Some 11]], grants = []\<rparr>
     \<lparr>items = Ptr 0 0, count = 2, cap = 2, size_bytes = 1\<rparr> (Ptr 1 0) =
     Inr (\<lparr>blocks = [None, Some [Some 11], Some [Some 7, Some 9, Some 11, None]], grants = []\<rparr>,
          \<lparr>items = Ptr 2 0, count = 3, cap = 4, size_bytes = 1\<rparr>) \<and>
   element_at \<lparr>blocks = [None, Some [Some 11], Some [Some 7, Some 9, Some 11, None]], grants = []\<rparr>
     \<lparr>items = Ptr 2 0, count = 3, cap = 4, size_bytes = 1\<rparr> 2 = Inr [Some 11] \<and>
   sizes_fit 1 (2 * 1 + 1) \<and> grant_all (grants \<lparr>blocks = [], grants = []\<rparr>) \<and>
   (\<exists>m2 array2.
      create_and_push \<lparr>blocks = [], grants = []\<rparr> 1 [ [Some 1], [Some 2], [Some 3] ] =
        Inr (m2, array2) \<and>
      2 * 1 + 1 \<le> unat (cap array2) \<and>
      element_at m2 array2 (of_nat 2) = Inr [Some 3])"
proof -
  let ?m = "\<lparr>blocks = [Some [Some 7, Some 9], Some [Some 11]], grants = []\<rparr>"
  let ?a = "\<lparr>items = Ptr 0 0, count = 2, cap = 2, size_bytes = 1\<rparr>"
  let ?m' = "\<lparr>blocks = [None, Some [Some 11], Some [Some 7, Some 9, Some 11, None]], grants = []\<rparr>"
  let ?a' = "\<lparr>items = Ptr 2 0, count = 3, cap = 4, size_bytes = 1\<rparr>"
  let ?vs = "[ [Some 1], [Some 2], [Some (3 :: 8 word)] ]"
  let ?e = "\<lparr>blocks = [], grants = []\<rparr>"
  have ok: "array_ok ?m ?a" by (simp add: array_ok_def word_le_nat_alt word_less_nat_alt)
  have h: "array_ok ?m ?a \<and> count ?a = cap ?a \<and> grant_next (grants ?m) \<and>
    2 * unat (cap ?a) * unat (size_bytes ?a) < 2 ^ 64 \<and> 2 * unat (cap ?a) < 2 ^ 64 \<and>
    load ?m (Ptr 1 0) (unat (size_bytes ?a)) = Inr [Some 11] \<and>
    block_of (Ptr 1 0) \<noteq> block_of (items ?a)"
    using ok by (simp add: grant_next_def load_def block_of_def)
  have p: "push_dyn_array ?m ?a (Ptr 1 0) = Inr (?m', ?a')" by (simp add: dyn_eval)
  from push_at_capacity_grows [where m = ?m and array = ?a and val = "Ptr 1 0" and v = "[Some 11]",
      THEN conjunct1, rule_format, OF h] p
  have e: "element_at ?m' ?a' 2 = Inr [Some 11]" by auto
  have f: "sizes_fit 1 (2 * 1 + 1)" by (simp add: sizes_fit_def)
  have g: "grant_all (grants ?e)" by (simp add: grant_all_def)
  have h2: "sizes_fit 1 (2 * 1 + 1) \<and> length ?vs = 2 * 1 + 1 \<and>
    (\<forall>v\<in>set ?vs. length v = unat (1 :: size_t))"
    using f by simp
  note t = push_at_capacity_grows [where m = ?e and n = 1 and k = 1 and vs = ?vs,
      THEN conjunct2, THEN mp, OF h2]
  from t [THEN conjunct2, THEN conjunct1, THEN mp, OF g]
  obtain m2 array2 where r: "create_and_push ?e 1 ?vs = Inr (m2, array2)"
    by blast
  from t [THEN conjunct2, THEN conjunct2, rule_format, OF r] have s: "2 * 1 + 1 \<le> unat (cap array2)"
    "\<forall>i<2 * 1 + 1. element_at m2 array2 (of_nat i) = Inr (?vs ! i)"
    by simp_all
  from s(2) [rule_format, of 2] have "element_at m2 array2 (of_nat 2) = Inr [Some 3]" by simp
  then show ?thesis using ok p e f g r s(1) by blast
qed
















end
